theory Spec2Isabelle
  imports Main "HOL-Library.Sublist"
begin

text \<open>
  A shallow embedding of the two scripts of the repository: \<open>deploy.py\<close>, which makes an
  instance of a templated Compose stack for a domain, and \<open>tools/cleanup.py\<close>, which
  removes every resource of the container engine.  The functions keep the names and the
  order of checks of the source (a leading underscore is dropped).  What a script does to
  the outside is explicit: the file system is a tree handed from step to step, what is
  logged and printed is a list of events, \<open>sys.exit\<close> and exceptions are values, and the
  terminal and the container engine are inputs.
\<close>

section \<open>Python strings\<close>

text \<open>
  A Python \<open>str\<close> is modelled as a \<^typ>\<open>string\<close>: a \<^typ>\<open>char\<close> stands for the code
  point of the same number, so the model covers the code points 0 to 255 (ASCII and
  Latin-1).  The operations below are the ones \<open>deploy.py\<close> and \<open>tools/cleanup.py\<close>
  call on strings, restricted to that range.
\<close>

definition char_lower :: "char \<Rightarrow> char" where
  \<comment> \<open>one character of \<open>str.lower()\<close>: A-Z and the Latin-1 capitals (U+00D7 is the
      multiplication sign and stays)\<close>
  "char_lower c =
     (let n = (of_char c :: nat)
      in if (65 \<le> n \<and> n \<le> 90) \<or> (192 \<le> n \<and> n \<le> 222 \<and> n \<noteq> 215)
         then char_of (n + 32) else c)"

definition py_lower :: "string \<Rightarrow> string" where
  "py_lower s = map char_lower s"

definition py_upper_ascii :: "char \<Rightarrow> char" where
  \<comment> \<open>one character of \<open>str.upper()\<close> on ASCII letters; the deployer upper-cases a log
      level only to look it up among the ASCII names of the \<open>logging\<close> module\<close>
  "py_upper_ascii c =
     (let n = (of_char c :: nat)
      in if 97 \<le> n \<and> n \<le> 122 then char_of (n - 32) else c)"

definition py_isspace :: "char \<Rightarrow> bool" where
  \<comment> \<open>the characters \<open>str.strip()\<close> removes: TAB, LF, VT, FF, CR, FS, GS, RS, US, SPACE,
      NEL and NBSP\<close>
  "py_isspace c =
     (let n = (of_char c :: nat)
      in (9 \<le> n \<and> n \<le> 13) \<or> (28 \<le> n \<and> n \<le> 32) \<or> n = 133 \<or> n = 160)"

definition py_strip :: "string \<Rightarrow> string" where
  "py_strip s = rev (dropWhile py_isspace (rev (dropWhile py_isspace s)))"

fun split_char :: "char \<Rightarrow> string \<Rightarrow> string list" where
  \<comment> \<open>\<open>s.split(sep)\<close> for a separator of one character: the result is never empty\<close>
  "split_char sep [] = [[]]"
| "split_char sep (c # cs) =
     (if c = sep then [] # split_char sep cs
      else (case split_char sep cs of
              [] \<Rightarrow> [[c]]
            | w # ws \<Rightarrow> (c # w) # ws))"

function py_count :: "'a list \<Rightarrow> 'a list \<Rightarrow> nat" where
  \<comment> \<open>\<open>s.count(old)\<close>: occurrences that do not overlap, from the left\<close>
  "py_count old s =
     (if old = [] then Suc (length s)
      else if s = [] then 0
      else if prefix old s then Suc (py_count old (drop (length old) s))
      else py_count old (tl s))"
  by pat_completeness auto
termination
  by (relation "measure (\<lambda>(old, s). length s)") auto

function replace_scan :: "'a list \<Rightarrow> 'a list \<Rightarrow> 'a list \<Rightarrow> 'a list" where
  "replace_scan old new s =
     (if old = [] \<or> s = [] then s
      else if prefix old s then new @ replace_scan old new (drop (length old) s)
      else hd s # replace_scan old new (tl s))"
  by pat_completeness auto
termination
  by (relation "measure (\<lambda>(old, new, s). length s)") auto

definition py_replace :: "'a list \<Rightarrow> 'a list \<Rightarrow> 'a list \<Rightarrow> 'a list" where
  \<comment> \<open>\<open>s.replace(old, new)\<close>; an empty \<open>old\<close> matches before every character and at
      the end\<close>
  "py_replace old new s =
     (if old = [] then new @ concat (map (\<lambda>c. c # new) s)
      else replace_scan old new s)"

declare py_count.simps [simp del] replace_scan.simps [simp del]

section \<open>Text in files\<close>

text \<open>
  A file holds bytes, and a \<^typ>\<open>char\<close> of its contents is one byte.  The text that
  \<open>Path.read_text(encoding="utf-8")\<close> makes of them is a list of code points, of any size:
  the bytes are decoded as UTF-8, strictly, and then every line ending \<open>CR LF\<close> and every
  lone \<open>CR\<close> becomes \<open>LF\<close> (universal newlines).  \<open>Path.write_text\<close> encodes the code
  points again and writes \<open>LF\<close> as it is, as on every system that has \<open>os.geteuid\<close>.  A
  string of the program, such as a token or the domain, becomes a text by \<open>text_of\<close>.
\<close>

type_synonym codepoints = "nat list"

definition text_of :: "string \<Rightarrow> codepoints" where
  \<comment> \<open>a string of the program as code points\<close>
  "text_of s = map of_char s"

definition continuation :: "nat \<Rightarrow> bool" where
  "continuation b = (128 \<le> b \<and> b \<le> 191)"

fun decode_bytes :: "nat list \<Rightarrow> codepoints option" where
  \<comment> \<open>strict UTF-8: no overlong form, no surrogate, nothing above U+10FFFF, no sequence cut
      short; \<open>None\<close> is \<open>UnicodeDecodeError\<close>\<close>
  "decode_bytes [] = Some []"
| "decode_bytes (b0 # bs) =
     (if b0 < 128 then map_option (Cons b0) (decode_bytes bs)
      else if 194 \<le> b0 \<and> b0 \<le> 223 then
        (case bs of
           b1 # rest \<Rightarrow>
             if continuation b1
             then map_option (Cons ((b0 - 192) * 64 + (b1 - 128))) (decode_bytes rest)
             else None
         | _ \<Rightarrow> None)
      else if 224 \<le> b0 \<and> b0 \<le> 239 then
        (case bs of
           b1 # b2 # rest \<Rightarrow>
             if (if b0 = 224 then 160 \<le> b1 \<and> b1 \<le> 191
                 else if b0 = 237 then 128 \<le> b1 \<and> b1 \<le> 159
                 else continuation b1)
                \<and> continuation b2
             then map_option (Cons ((b0 - 224) * 4096 + (b1 - 128) * 64 + (b2 - 128)))
                    (decode_bytes rest)
             else None
         | _ \<Rightarrow> None)
      else if 240 \<le> b0 \<and> b0 \<le> 244 then
        (case bs of
           b1 # b2 # b3 # rest \<Rightarrow>
             if (if b0 = 240 then 144 \<le> b1 \<and> b1 \<le> 191
                 else if b0 = 244 then 128 \<le> b1 \<and> b1 \<le> 143
                 else continuation b1)
                \<and> continuation b2 \<and> continuation b3
             then map_option
                    (Cons ((b0 - 240) * 262144 + (b1 - 128) * 4096 + (b2 - 128) * 64 + (b3 - 128)))
                    (decode_bytes rest)
             else None
         | _ \<Rightarrow> None)
      else None)"

definition utf8_decode :: "string \<Rightarrow> codepoints option" where
  "utf8_decode b = decode_bytes (map of_char b)"

definition encode_codepoint :: "nat \<Rightarrow> nat list option" where
  \<comment> \<open>the bytes of one code point; \<open>None\<close> is \<open>UnicodeEncodeError\<close>, which Python raises
      for a surrogate (a \<open>str\<close> holds nothing above U+10FFFF)\<close>
  "encode_codepoint n =
     (if n < 128 then Some [n]
      else if n < 2048 then Some [192 + n div 64, 128 + n mod 64]
      else if n < 65536 then
        (if 55296 \<le> n \<and> n \<le> 57343 then None
         else Some [224 + n div 4096, 128 + (n div 64) mod 64, 128 + n mod 64])
      else if n < 1114112 then
        Some [240 + n div 262144, 128 + (n div 4096) mod 64, 128 + (n div 64) mod 64,
              128 + n mod 64]
      else None)"

fun encode_codepoints :: "codepoints \<Rightarrow> nat list option" where
  "encode_codepoints [] = Some []"
| "encode_codepoints (n # ns) =
     (case encode_codepoint n of
        None \<Rightarrow> None
      | Some bs \<Rightarrow> map_option ((@) bs) (encode_codepoints ns))"

definition utf8_encode :: "codepoints \<Rightarrow> string option" where
  "utf8_encode cps = map_option (map char_of) (encode_codepoints cps)"

fun universal_newlines :: "codepoints \<Rightarrow> codepoints" where
  "universal_newlines [] = []"
| "universal_newlines [c] = [if c = 13 then 10 else c]"
| "universal_newlines (c # d # cs) =
     (if c = 13 \<and> d = 10 then 10 # universal_newlines cs
      else if c = 13 then 10 # universal_newlines (d # cs)
      else c # universal_newlines (d # cs))"

section \<open>Exceptions and process results\<close>

datatype exn =
    FileNotFoundError | FileExistsError | NotADirectoryError | IsADirectoryError
  | PermissionError | KeyError | IndexError | EOFError | KeyboardInterrupt
  | UnicodeDecodeError | UnicodeEncodeError

text \<open>
  A call either returns, or raises \<open>SystemExit\<close> with a status (\<open>sys.exit\<close>), or raises
  another exception.
\<close>

datatype 'a result = Return 'a | SysExit nat | Raise exn

text \<open>What a call of \<open>input()\<close> meets on the terminal.\<close>

datatype input_event = Line string | EndOfInput | Interrupt

definition py_input :: "input_event \<Rightarrow> string result" where
  "py_input ev =
     (case ev of
        Line s \<Rightarrow> Return s
      | EndOfInput \<Rightarrow> Raise EOFError
      | Interrupt \<Rightarrow> Raise KeyboardInterrupt)"

section \<open>The deployer: instance identifier\<close>

definition index0 :: "'a list \<Rightarrow> exn + 'a" where
  \<comment> \<open>\<open>xs[0]\<close>\<close>
  "index0 xs = (case xs of [] \<Rightarrow> Inl IndexError | x # _ \<Rightarrow> Inr x)"

definition extract_subdomain :: "string \<Rightarrow> exn + string" where
  \<comment> \<open>\<open>_extract_subdomain\<close>: \<open>domain.split(".")[0]\<close>\<close>
  "extract_subdomain domain = index0 (split_char (CHR ''.'') domain)"

section \<open>The cleanup tool\<close>

text \<open>
  The container engine is outside the program.  It is a function from the commands run so
  far and the command run now to the captured standard output, or to \<open>None\<close> when the
  command ends with a non-zero status (\<open>CalledProcessError\<close>).  The state of a run is the
  list of commands handed to the shell and the lines printed.
\<close>

type_synonym engine = "string list \<Rightarrow> string \<Rightarrow> string option"

record cleanup_state =
  invoked :: "string list"
  printed :: "string list"

definition cleanup_start :: cleanup_state where
  "cleanup_start = \<lparr>invoked = [], printed = []\<rparr>"

definition run_command :: "engine \<Rightarrow> string \<Rightarrow> cleanup_state \<Rightarrow> string option \<times> cleanup_state" where
  "run_command eng command st =
     (case eng (invoked st) command of
        Some out \<Rightarrow> (Some (py_strip out), st\<lparr>invoked := invoked st @ [command]\<rparr>)
      | None \<Rightarrow> (None, st\<lparr>invoked := invoked st @ [command]\<rparr>))"

definition py_print :: "string \<Rightarrow> cleanup_state \<Rightarrow> cleanup_state" where
  "py_print s st = st\<lparr>printed := printed st @ [s]\<rparr>"

definition truthy :: "string option \<Rightarrow> bool" where
  \<comment> \<open>\<open>if ids:\<close> on a value that is \<open>None\<close> or a string\<close>
  "truthy r = (case r of None \<Rightarrow> False | Some s \<Rightarrow> s \<noteq> [])"

definition cleanup_step ::
  "engine \<Rightarrow> string \<Rightarrow> string \<Rightarrow> string \<Rightarrow> string \<Rightarrow> string \<Rightarrow>
   cleanup_state \<Rightarrow> cleanup_state" where
  \<comment> \<open>one of the steps 1 to 4 of \<open>clean_docker\<close>: list the resources, and act on them when
      the list is not empty\<close>
  "cleanup_step eng title list_cmd act_cmd done_msg none_msg st =
     (let st1 = py_print title st;
          (ids, st2) = run_command eng list_cmd st1
      in if truthy ids
         then py_print done_msg (snd (run_command eng (act_cmd @ the ids) st2))
         else py_print none_msg st2)"

definition clean_docker :: "engine \<Rightarrow> input_event \<Rightarrow> unit result \<times> cleanup_state" where
  "clean_docker eng ev =
     (let st0 = py_print
            ''WARNING: This will delete ALL Docker containers, images, volumes, and networks.''
            cleanup_start
      in case py_input ev of
           Raise e \<Rightarrow> (Raise e, st0)
         | SysExit n \<Rightarrow> (SysExit n, st0)
         | Return confirm \<Rightarrow>
             if py_lower confirm \<noteq> ''yes''
             then (SysExit 0, py_print ''Operation cancelled.'' st0)
             else
               let st1 = py_print ''--- Starting Docker Cleanup ---'' st0;
                   st2 = cleanup_step eng ''1. Stopping all containers...''
                           ''docker ps -aq'' ''docker stop ''
                           ''   -> Containers stopped.'' ''   -> No running containers found.'' st1;
                   st3 = cleanup_step eng ''2. Removing all containers...''
                           ''docker ps -aq'' ''docker rm ''
                           ''   -> Containers removed.'' ''   -> No containers found to remove.'' st2;
                   st4 = cleanup_step eng ''3. Removing all images...''
                           ''docker images -q'' ''docker rmi -f ''
                           ''   -> Images removed.'' ''   -> No images found.'' st3;
                   st5 = cleanup_step eng ''4. Removing all volumes...''
                           ''docker volume ls -q'' ''docker volume rm ''
                           ''   -> Volumes removed.'' ''   -> No volumes found.'' st4;
                   st6 = py_print ''5. Removing custom networks...'' st5;
                   st7 = snd (run_command eng ''docker network prune -f'' st6);
                   st8 = py_print ''   -> Unused networks removed.'' st7
               in (Return (), py_print ''--- Cleanup Complete ---'' st8))"

definition engine_down :: engine where
  \<comment> \<open>an engine whose every command fails, as when the daemon is not running\<close>
  "engine_down history command = None"

section \<open>The file system\<close>

text \<open>
  The deployer works below the directory of the script.  That directory is the root of a
  tree of regular files and directories; a path is the list of names from the root.  A
  file holds its bytes.  Every node has an owner, a pair of a user id and a group id.  The
  entries of a directory are an association list in the order \<open>os.scandir\<close> reports them; a name is looked up from the
  left.  Symbolic links are not modelled, and of all the operations only \<open>chown\<close> is
  subject to a permission check.
\<close>

type_synonym owner = "nat \<times> nat"
type_synonym path = "string list"

datatype node = File string owner | Dir owner "(string \<times> node) list"

fun node_owner :: "node \<Rightarrow> owner" where
  "node_owner (File c ow) = ow"
| "node_owner (Dir ow es) = ow"

fun set_owner :: "owner \<Rightarrow> node \<Rightarrow> node" where
  "set_owner ow (File c old) = File c ow"
| "set_owner ow (Dir old es) = Dir ow es"

fun is_dir_node :: "node \<Rightarrow> bool" where
  "is_dir_node (File c ow) = False"
| "is_dir_node (Dir ow es) = True"

fun lookup :: "node \<Rightarrow> path \<Rightarrow> node option" where
  "lookup n [] = Some n"
| "lookup (File c ow) (x # xs) = None"
| "lookup (Dir ow es) (x # xs) =
     (case map_of es x of None \<Rightarrow> None | Some child \<Rightarrow> lookup child xs)"

definition path_exists :: "node \<Rightarrow> path \<Rightarrow> bool" where
  \<comment> \<open>\<open>Path.exists()\<close>\<close>
  "path_exists root p = (lookup root p \<noteq> None)"

definition path_is_dir :: "node \<Rightarrow> path \<Rightarrow> bool" where
  \<comment> \<open>\<open>Path.is_dir()\<close>\<close>
  "path_is_dir root p = (case lookup root p of Some (Dir ow es) \<Rightarrow> True | _ \<Rightarrow> False)"

fun entry_modify :: "string \<Rightarrow> (node \<Rightarrow> node) \<Rightarrow> (string \<times> node) list \<Rightarrow> (string \<times> node) list" where
  "entry_modify x f [] = []"
| "entry_modify x f ((k, v) # es) =
     (if k = x then (k, f v) # es else (k, v) # entry_modify x f es)"

definition entry_delete :: "string \<Rightarrow> (string \<times> node) list \<Rightarrow> (string \<times> node) list" where
  "entry_delete x es = filter (\<lambda>e. fst e \<noteq> x) es"

definition entry_put :: "string \<Rightarrow> node \<Rightarrow> (string \<times> node) list \<Rightarrow> (string \<times> node) list" where
  "entry_put x v es =
     (if map_of es x = None then es @ [(x, v)] else entry_modify x (\<lambda>old. v) es)"

fun modify_at :: "path \<Rightarrow> (node \<Rightarrow> node) \<Rightarrow> node \<Rightarrow> node" where
  "modify_at [] f n = f n"
| "modify_at (x # xs) f (File c ow) = File c ow"
| "modify_at (x # xs) f (Dir ow es) = Dir ow (entry_modify x (\<lambda>child. modify_at xs f child) es)"

fun remove_at :: "path \<Rightarrow> node \<Rightarrow> node" where
  \<comment> \<open>the tree without the node at the path.  Removing the root leaves an empty root: the
      model does not tell a deleted script directory from an empty one, and the deployer
      cannot either, since the template is gone in both\<close>
  "remove_at [] (File c ow) = File c ow"
| "remove_at [] (Dir ow es) = Dir ow []"
| "remove_at (x # xs) (File c ow) = File c ow"
| "remove_at (x # xs) (Dir ow es) =
     (if xs = [] then Dir ow (entry_delete x es)
      else Dir ow (entry_modify x (\<lambda>child. remove_at xs child) es))"

fun put_new :: "owner \<Rightarrow> path \<Rightarrow> node \<Rightarrow> node \<Rightarrow> node option" where
  \<comment> \<open>place a new node at a path, creating the missing directories above it with the
      given owner (\<open>os.makedirs\<close>); \<open>None\<close> when a name on the way is a regular file\<close>
  "put_new ow [] new n = None"
| "put_new ow (x # xs) new (File c old) = None"
| "put_new ow (x # xs) new (Dir old es) =
     (if xs = [] then Some (Dir old (entry_put x new es))
      else (case map_of es x of
              None \<Rightarrow>
                (case put_new ow xs new (Dir ow []) of
                   None \<Rightarrow> None
                 | Some d \<Rightarrow> Some (Dir old (es @ [(x, d)])))
            | Some child \<Rightarrow>
                (case put_new ow xs new child of
                   None \<Rightarrow> None
                 | Some d \<Rightarrow> Some (Dir old (entry_modify x (\<lambda>c. d) es)))))"

fun fresh_copy :: "owner \<Rightarrow> node \<Rightarrow> node" where
  \<comment> \<open>what \<open>shutil.copytree\<close> creates from a tree: the same names and contents, owned by
      the process that copies\<close>
  "fresh_copy ow (File c old) = File c ow"
| "fresh_copy ow (Dir old es) = Dir ow (map (\<lambda>e. (fst e, fresh_copy ow (snd e))) es)"

definition dirnames :: "(string \<times> node) list \<Rightarrow> string list" where
  "dirnames es = map fst (filter (\<lambda>e. is_dir_node (snd e)) es)"

definition filenames :: "(string \<times> node) list \<Rightarrow> string list" where
  "filenames es = map fst (filter (\<lambda>e. \<not> is_dir_node (snd e)) es)"

fun walk :: "path \<Rightarrow> node \<Rightarrow> (path \<times> string list \<times> string list) list" where
  \<comment> \<open>\<open>os.walk(top)\<close>, top-down and not following links: nothing for a path that is not a
      directory (the error of \<open>scandir\<close> is swallowed), else the directory itself and then
      the walk of each of its subdirectories\<close>
  "walk p (File c ow) = []"
| "walk p (Dir ow es) =
     (p, dirnames es, filenames es)
       # concat (map (\<lambda>e. walk (p @ [fst e]) (snd e)) (filter (\<lambda>e. is_dir_node (snd e)) es))"

definition os_walk :: "node \<Rightarrow> path \<Rightarrow> (path \<times> string list \<times> string list) list" where
  \<comment> \<open>\<open>os.walk(path)\<close> on a tree: nothing when the path does not exist\<close>
  "os_walk root p = (case lookup root p of None \<Rightarrow> [] | Some n \<Rightarrow> walk p n)"

definition rmtree :: "path \<Rightarrow> node \<Rightarrow> exn + node" where
  \<comment> \<open>\<open>shutil.rmtree(path)\<close>\<close>
  "rmtree p root =
     (case lookup root p of
        None \<Rightarrow> Inl FileNotFoundError
      | Some (File c ow) \<Rightarrow> Inl NotADirectoryError
      | Some (Dir ow es) \<Rightarrow> Inr (remove_at p root))"

definition copytree :: "owner \<Rightarrow> path \<Rightarrow> path \<Rightarrow> node \<Rightarrow> exn + node" where
  \<comment> \<open>\<open>shutil.copytree(src, dst)\<close> by a process with the given user and group: the source
      is listed first, then the destination is made with \<open>os.makedirs\<close>, which refuses a
      destination that exists.  The model copies the source as it is when the call starts,
      which is what \<open>copytree\<close> does for a destination outside the source\<close>
  "copytree me src dst root =
     (case lookup root src of
        None \<Rightarrow> Inl FileNotFoundError
      | Some (File c ow) \<Rightarrow> Inl NotADirectoryError
      | Some (Dir ow es) \<Rightarrow>
          if lookup root dst \<noteq> None then Inl FileExistsError
          else (case put_new me dst (fresh_copy me (Dir ow es)) root of
                  None \<Rightarrow> Inl NotADirectoryError
                | Some root' \<Rightarrow> Inr root'))"

definition read_text :: "path \<Rightarrow> node \<Rightarrow> exn + codepoints" where
  \<comment> \<open>\<open>Path.read_text(encoding="utf-8")\<close>\<close>
  "read_text p root =
     (case lookup root p of
        None \<Rightarrow> Inl FileNotFoundError
      | Some (Dir ow es) \<Rightarrow> Inl IsADirectoryError
      | Some (File c ow) \<Rightarrow>
          (case utf8_decode c of
             None \<Rightarrow> Inl UnicodeDecodeError
           | Some cps \<Rightarrow> Inr (universal_newlines cps)))"

definition open_for_writing :: "owner \<Rightarrow> path \<Rightarrow> node \<Rightarrow> exn + node" where
  \<comment> \<open>\<open>open(path, "w")\<close>: an existing file is emptied and keeps its owner; a new file needs
      its directory\<close>
  "open_for_writing me p root =
     (case lookup root p of
        Some (File c ow) \<Rightarrow> Inr (modify_at p (\<lambda>old. File [] ow) root)
      | Some (Dir ow es) \<Rightarrow> Inl IsADirectoryError
      | None \<Rightarrow>
          (case lookup root (butlast p) of
             None \<Rightarrow> Inl FileNotFoundError
           | Some (File c ow) \<Rightarrow> Inl NotADirectoryError
           | Some (Dir ow es) \<Rightarrow>
               Inr (modify_at (butlast p)
                      (\<lambda>d. case d of Dir dow des \<Rightarrow> Dir dow (des @ [(last p, File [] me)])
                                   | File fc fow \<Rightarrow> File fc fow) root)))"

definition set_contents :: "string \<Rightarrow> node \<Rightarrow> node" where
  "set_contents b n = (case n of File c ow \<Rightarrow> File b ow | Dir ow es \<Rightarrow> Dir ow es)"

definition write_text :: "owner \<Rightarrow> path \<Rightarrow> codepoints \<Rightarrow> node \<Rightarrow> exn option \<times> node" where
  \<comment> \<open>\<open>Path.write_text(data, encoding="utf-8")\<close>: the file is opened, which empties it, and
      then the text is encoded and written; a text that cannot be encoded leaves the file
      empty.  The pair is the exception raised, if any, and the tree the call leaves\<close>
  "write_text me p cps root =
     (case open_for_writing me p root of
        Inl e \<Rightarrow> (Some e, root)
      | Inr opened \<Rightarrow>
          (case utf8_encode cps of
             None \<Rightarrow> (Some UnicodeEncodeError, opened)
           | Some b \<Rightarrow> (None, modify_at p (set_contents b) opened)))"

section \<open>The process and its privileges\<close>

record env =
  euid :: nat
  egid :: nat
  groups :: "nat list"
  group_db :: "nat \<Rightarrow> string option"
  script_dir :: string

text \<open>
  \<open>os.geteuid()\<close>, the effective group, \<open>os.getgroups()\<close>, the group database behind
  \<open>grp.getgrgid\<close> (\<open>None\<close> is its \<open>KeyError\<close>), and the directory of the script as
  \<open>Path(__file__).resolve().parent\<close> prints it.
\<close>

fun group_names :: "(nat \<Rightarrow> string option) \<Rightarrow> nat list \<Rightarrow> exn + string list" where
  "group_names db [] = Inr []"
| "group_names db (g # gs) =
     (case db g of
        None \<Rightarrow> Inl KeyError
      | Some name \<Rightarrow>
          (case group_names db gs of
             Inl e \<Rightarrow> Inl e
           | Inr names \<Rightarrow> Inr (name # names)))"

definition has_privilege :: "env \<Rightarrow> bool" where
  \<comment> \<open>\<open>_has_privilege\<close>.  The module \<open>grp\<close> is there wherever \<open>os.geteuid\<close> is, so of the
      two exceptions the source catches only \<open>KeyError\<close> can be raised\<close>
  "has_privilege env =
     (if euid env = 0 then True
      else (case group_names (group_db env) (groups env) of
              Inl e \<Rightarrow> False
            | Inr names \<Rightarrow> (\<exists>n \<in> set names. n = ''sudo'' \<or> n = ''wheel'')))"

definition chown_permitted :: "env \<Rightarrow> owner \<Rightarrow> owner \<Rightarrow> bool" where
  \<comment> \<open>the kernel's rule for \<open>chown\<close>: the superuser may do anything; anyone else may only
      change the group of a file of their own, to a group of theirs\<close>
  "chown_permitted env old new =
     (euid env = 0
      \<or> (euid env = fst old \<and> fst new = fst old
          \<and> (snd new = snd old \<or> snd new = egid env \<or> snd new \<in> set (groups env))))"

definition os_chown :: "env \<Rightarrow> owner \<Rightarrow> path \<Rightarrow> node \<Rightarrow> exn + node" where
  "os_chown env new p root =
     (case lookup root p of
        None \<Rightarrow> Inl FileNotFoundError
      | Some n \<Rightarrow>
          if chown_permitted env (node_owner n) new
          then Inr (modify_at p (set_owner new) root)
          else Inl PermissionError)"

fun chown_paths :: "env \<Rightarrow> owner \<Rightarrow> path list \<Rightarrow> node \<Rightarrow> unit result \<times> node" where
  \<comment> \<open>the calls of \<open>os.chown\<close> one after the other; the first that raises ends the loop and
      leaves what the earlier ones did\<close>
  "chown_paths env new [] root = (Return (), root)"
| "chown_paths env new (p # ps) root =
     (case os_chown env new p root of
        Inl e \<Rightarrow> (Raise e, root)
      | Inr root' \<Rightarrow> chown_paths env new ps root')"

definition walk_calls :: "(path \<times> string list \<times> string list) list \<Rightarrow> path list" where
  \<comment> \<open>the paths the loop of \<open>_chown_recursive\<close> hands to \<open>os.chown\<close>, in its order: for each
      directory of the walk the directory, then \<open>dirnames + filenames\<close> below it\<close>
  "walk_calls ws =
     concat (map (\<lambda>(dirpath, dns, fns). dirpath # map (\<lambda>name. dirpath @ [name]) (dns @ fns)) ws)"

section \<open>Logging and output\<close>

datatype level = DEBUG | INFO | WARNING | ERROR

fun level_no :: "level \<Rightarrow> nat" where
  "level_no DEBUG = 10"
| "level_no INFO = 20"
| "level_no WARNING = 30"
| "level_no ERROR = 40"

text \<open>
  A logged line is kept as its level and its message, without the time stamp; the messages
  are those of the source without their quotation marks and check marks.
\<close>

datatype event = Log level string | Stdout string | Stderr string

record world =
  tree :: node
  threshold :: nat
  emitted :: "event list"

definition start_world :: "node \<Rightarrow> world" where
  \<comment> \<open>a fresh process: before \<open>logging.basicConfig\<close> the threshold is WARNING\<close>
  "start_world root = \<lparr>tree = root, threshold = 30, emitted = []\<rparr>"

definition log_msg :: "level \<Rightarrow> string \<Rightarrow> world \<Rightarrow> world" where
  "log_msg lv msg w =
     (if threshold w \<le> level_no lv then w\<lparr>emitted := emitted w @ [Log lv msg]\<rparr> else w)"

definition print_out :: "string \<Rightarrow> world \<Rightarrow> world" where
  "print_out msg w = w\<lparr>emitted := emitted w @ [Stdout msg]\<rparr>"

definition print_err :: "string \<Rightarrow> world \<Rightarrow> world" where
  "print_err msg w = w\<lparr>emitted := emitted w @ [Stderr msg]\<rparr>"

definition digit_char :: "nat \<Rightarrow> char" where
  "digit_char n = ''0123456789'' ! (n mod 10)"

function show_nat :: "nat \<Rightarrow> string" where
  \<comment> \<open>\<open>%d\<close> of a number that is not negative\<close>
  "show_nat n = (if n < 10 then [digit_char n] else show_nat (n div 10) @ [digit_char n])"
  by pat_completeness auto
termination
  by (relation "measure (\<lambda>n. n)") auto

declare show_nat.simps [simp del]

definition show_bool :: "bool \<Rightarrow> string" where
  "show_bool b = (if b then ''True'' else ''False'')"

fun join_names :: "path \<Rightarrow> string" where
  "join_names [] = []"
| "join_names [x] = x"
| "join_names (x # y # ys) = x @ ''/'' @ join_names (y # ys)"

definition path_str :: "env \<Rightarrow> path \<Rightarrow> string" where
  \<comment> \<open>\<open>str(script_dir / ...)\<close>\<close>
  "path_str env p =
     (if p = [] then script_dir env
      else if script_dir env = ''/'' then ''/'' @ join_names p
      else script_dir env @ ''/'' @ join_names p)"

type_synonym 'a action = "world \<Rightarrow> 'a result \<times> world"

definition and_then :: "unit action \<Rightarrow> 'a action \<Rightarrow> 'a action" where
  \<comment> \<open>one statement after the other: what the first raises ends both\<close>
  "and_then f g w =
     (case f w of
        (Return u, w') \<Rightarrow> g w'
      | (SysExit n, w') \<Rightarrow> (SysExit n, w')
      | (Raise e, w') \<Rightarrow> (Raise e, w'))"

section \<open>The deployer\<close>

definition TEMPLATE_DIR :: string where "TEMPLATE_DIR = ''journal''"
definition WWW_DATA_UID :: nat where "WWW_DATA_UID = 33"
definition WWW_DATA_GID :: nat where "WWW_DATA_GID = 33"
definition MYSQL_UID :: nat where "MYSQL_UID = 999"
definition MYSQL_GID :: nat where "MYSQL_GID = 999"
definition EXIT_SUCCESS :: nat where "EXIT_SUCCESS = 0"
definition EXIT_USER_ERROR :: nat where "EXIT_USER_ERROR = 1"
definition EXIT_PERMISSION_ERROR :: nat where "EXIT_PERMISSION_ERROR = 2"
definition TOKEN_DOMAIN :: string where "TOKEN_DOMAIN = ''{{DOMAIN}}''"
definition TOKEN_JOURNAL :: string where "TOKEN_JOURNAL = ''{{JOURNAL}}''"
definition TOKEN_DATABASE :: string where "TOKEN_DATABASE = ''{{DATABASE}}''"
definition TOKEN_DB_HOST :: string where "TOKEN_DB_HOST = ''{{DB_HOST}}''"
definition TOKEN_ACME_EMAIL :: string where "TOKEN_ACME_EMAIL = ''{{ACME_EMAIL}}''"
definition TOKEN_LOCALE :: string where "TOKEN_LOCALE = ''{{LOCALE}}''"

subsection \<open>Helpers\<close>

definition logging_attr :: "string \<Rightarrow> nat option" where
  \<comment> \<open>\<open>getattr(logging, name, None)\<close> where the attribute is an \<open>int\<close>: the level
      constants of the \<open>logging\<close> module.  Its other attributes with upper-case names are
      not integers\<close>
  "logging_attr name =
     (if name = ''CRITICAL'' \<or> name = ''FATAL'' then Some 50
      else if name = ''ERROR'' then Some 40
      else if name = ''WARNING'' \<or> name = ''WARN'' then Some 30
      else if name = ''INFO'' then Some 20
      else if name = ''DEBUG'' then Some 10
      else if name = ''NOTSET'' then Some 0
      else None)"

definition configure_logging :: "string \<Rightarrow> unit action" where
  \<comment> \<open>\<open>_configure_logging\<close>\<close>
  "configure_logging lv w =
     (case logging_attr (map py_upper_ascii lv) of
        None \<Rightarrow> (SysExit EXIT_USER_ERROR, print_err (''Invalid log level: '' @ lv) w)
      | Some numeric \<Rightarrow> (Return (), w\<lparr>threshold := numeric\<rparr>))"

definition chown_recursive :: "env \<Rightarrow> path \<Rightarrow> nat \<Rightarrow> nat \<Rightarrow> bool \<Rightarrow> unit action" where
  \<comment> \<open>\<open>_chown_recursive\<close>.  The walk is taken from the tree as it is before the loop:
      \<open>os.chown\<close> changes no name and no kind, so the lazy walk of the source lists the
      same directories\<close>
  "chown_recursive env p uid gid dry w =
     (if dry
      then (Return (),
            log_msg INFO (''[DRY-RUN] Would chown -R '' @ show_nat uid @ '':'' @ show_nat gid
                          @ '' '' @ path_str env p) w)
      else
        let (r, root') = chown_paths env (uid, gid) (walk_calls (os_walk (tree w) p)) (tree w)
        in (r, w\<lparr>tree := root'\<rparr>))"

fun apply_replacements ::
  "(codepoints \<times> codepoints) list \<Rightarrow> codepoints \<Rightarrow> nat \<Rightarrow> codepoints \<times> nat" where
  \<comment> \<open>the loop of \<open>_replace_in_file\<close> over the pairs, with the text and the count\<close>
  "apply_replacements [] text n = (text, n)"
| "apply_replacements ((old, new) # rs) text n =
     (let occurrences = py_count old text
      in if occurrences \<noteq> 0
         then apply_replacements rs (py_replace old new text) (n + occurrences)
         else apply_replacements rs text n)"

definition replace_in_file ::
  "env \<Rightarrow> path \<Rightarrow> (codepoints \<times> codepoints) list \<Rightarrow> bool \<Rightarrow> unit action" where
  \<comment> \<open>\<open>_replace_in_file\<close>\<close>
  "replace_in_file env filepath replacements dry w =
     (if \<not> path_exists (tree w) filepath
      then (Return (), log_msg WARNING (''File not found, skipping: '' @ path_str env filepath) w)
      else
        (case read_text filepath (tree w) of
           Inl e \<Rightarrow> (Raise e, w)
         | Inr text \<Rightarrow>
             let (text', n) = apply_replacements replacements text 0
             in if dry
                then (Return (),
                      log_msg INFO (''[DRY-RUN] Would apply '' @ show_nat n
                                    @ '' replacements in '' @ path_str env filepath) w)
                else
                  (case write_text (euid env, egid env) filepath text' (tree w) of
                     (Some e, root') \<Rightarrow> (Raise e, w\<lparr>tree := root'\<rparr>)
                   | (None, root') \<Rightarrow>
                       (Return (),
                        log_msg INFO (''Applied '' @ show_nat n @ '' replacements in ''
                                      @ path_str env filepath) (w\<lparr>tree := root'\<rparr>)))))"

subsection \<open>Core deployment steps\<close>

definition validate_environment :: "env \<Rightarrow> path \<Rightarrow> unit action" where
  "validate_environment env template_dir w =
     (if \<not> path_is_dir (tree w) template_dir
      then (SysExit EXIT_USER_ERROR,
            log_msg ERROR (''Template directory '' @ path_str env template_dir @ '' not found!'') w)
      else
        (Return (),
         fold (\<lambda>name w'.
                 if \<not> path_exists (tree w') (template_dir @ [name])
                 then log_msg WARNING (''Expected template file missing: ''
                                       @ path_str env template_dir @ ''/'' @ name) w'
                 else w')
              [''.env'', ''compose.yml''] w))"

definition handle_existing_target :: "env \<Rightarrow> path \<Rightarrow> bool \<Rightarrow> bool \<Rightarrow> input_event \<Rightarrow> unit action" where
  "handle_existing_target env target_dir frc dry ev w =
     (if \<not> path_exists (tree w) target_dir then (Return (), w)
      else if dry
      then (Return (),
            log_msg INFO (''[DRY-RUN] Directory '' @ path_str env target_dir
                          @ '' exists; would prompt/overwrite.'') w)
      else if frc
      then
        (let w1 = log_msg INFO (''Directory '' @ path_str env target_dir
                                @ '' exists - overwriting (--force).'') w
         in case rmtree target_dir (tree w1) of
              Inl e \<Rightarrow> (Raise e, w1)
            | Inr root' \<Rightarrow> (Return (), w1\<lparr>tree := root'\<rparr>))
      else
        (let w1 = log_msg WARNING (''Directory '' @ path_str env target_dir
                                   @ '' already exists.'') w
         in case py_input ev of
              Raise e \<Rightarrow>
                if e = EOFError \<or> e = KeyboardInterrupt
                then (SysExit EXIT_USER_ERROR, log_msg INFO ''Aborted.'' (print_out [] w1))
                else (Raise e, w1)
            | SysExit n \<Rightarrow> (SysExit n, w1)
            | Return answer \<Rightarrow>
                let reply = py_lower (py_strip answer)
                in if reply \<noteq> ''y'' \<and> reply \<noteq> ''yes''
                   then (SysExit EXIT_USER_ERROR, log_msg INFO ''Aborted.'' w1)
                   else (case rmtree target_dir (tree w1) of
                           Inl e \<Rightarrow> (Raise e, w1)
                         | Inr root' \<Rightarrow> (Return (), w1\<lparr>tree := root'\<rparr>))))"

definition copy_template :: "env \<Rightarrow> path \<Rightarrow> path \<Rightarrow> bool \<Rightarrow> unit action" where
  "copy_template env template_dir target_dir dry w =
     (if dry
      then (Return (),
            log_msg INFO (''[DRY-RUN] Would copy '' @ path_str env template_dir @ '' -> ''
                          @ path_str env target_dir) w)
      else
        (case copytree (euid env, egid env) template_dir target_dir (tree w) of
           Inl e \<Rightarrow> (Raise e, w)
         | Inr root' \<Rightarrow>
             (Return (),
              log_msg INFO (''Created directory: '' @ path_str env target_dir)
                (w\<lparr>tree := root'\<rparr>))))"

definition configure_env :: "env \<Rightarrow> path \<Rightarrow> string \<Rightarrow> string \<Rightarrow> string \<Rightarrow> bool \<Rightarrow> unit action" where
  "configure_env env env_file domain acme_email subdomain dry =
     replace_in_file env env_file
       [(text_of TOKEN_DOMAIN, text_of domain),
        (text_of TOKEN_ACME_EMAIL, text_of acme_email),
        (text_of TOKEN_DB_HOST, text_of (''db-'' @ subdomain))]
       dry"

definition configure_config_inc :: "env \<Rightarrow> path \<Rightarrow> string \<Rightarrow> string \<Rightarrow> string \<Rightarrow> bool \<Rightarrow> unit action" where
  "configure_config_inc env config_file domain loc subdomain dry =
     replace_in_file env config_file
       [(text_of TOKEN_DOMAIN, text_of domain),
        (text_of TOKEN_LOCALE, text_of loc),
        (text_of TOKEN_DB_HOST, text_of (''db-'' @ subdomain))]
       dry"

definition configure_compose :: "env \<Rightarrow> path \<Rightarrow> string \<Rightarrow> bool \<Rightarrow> unit action" where
  "configure_compose env compose_file subdomain dry =
     replace_in_file env compose_file
       [(text_of TOKEN_JOURNAL, text_of (''journal-'' @ subdomain)),
        (text_of TOKEN_DATABASE, text_of (''db-'' @ subdomain))]
       dry"

definition set_permissions :: "env \<Rightarrow> path \<Rightarrow> bool \<Rightarrow> unit action" where
  "set_permissions env target_dir dry w =
     (let volumes_dir = target_dir @ [''volumes''];
          db_dir = volumes_dir @ [''db'']
      in if \<not> has_privilege env
         then (SysExit EXIT_PERMISSION_ERROR,
               log_msg ERROR (''  chown -R '' @ show_nat MYSQL_UID @ '':'' @ show_nat MYSQL_GID
                              @ '' '' @ path_str env db_dir)
                (log_msg ERROR (''  chown -R '' @ show_nat WWW_DATA_UID @ '':''
                                @ show_nat WWW_DATA_GID @ '' '' @ path_str env volumes_dir)
                  (log_msg ERROR ''Please manually run:''
                    (log_msg ERROR
                       ''Access denied: You must be root or a member of the sudo/wheel group.''
                       w))))
         else
           and_then (chown_recursive env volumes_dir WWW_DATA_UID WWW_DATA_GID dry)
             (and_then (chown_recursive env db_dir MYSQL_UID MYSQL_GID dry)
                (\<lambda>w'. (Return (), if \<not> dry then log_msg INFO ''Permissions set'' w' else w')))
             w)"

definition print_summary :: "string \<Rightarrow> string \<Rightarrow> world \<Rightarrow> world" where
  "print_summary domain target w =
     print_out ''--- Journal Deployment Complete ---''
      (print_out (''   -> https://'' @ domain)
        (print_out ''3. Visit:''
          (print_out ''   -> cd docker compose up -d''
            (print_out ''2. Start containers:''
              (print_out (''   -> cd '' @ target)
                (print_out ''1. Enter directory:''
                  (print_out (''--- Deployment Ready: '' @ domain @ '' ---'') w)))))))"

subsection \<open>Command line and entry point\<close>

record args =
  arg_domain :: string
  arg_locale :: string
  arg_email :: "string option"
  arg_force :: bool
  arg_dry_run :: bool
  arg_log_level :: string

text \<open>
  The record is the command line as \<open>argparse\<close> has split it: the positional domain, the
  values given to \<open>--locale\<close> (default \<open>en\<close>), \<open>--email\<close> (default \<open>None\<close>) and
  \<open>--log-level\<close> (default \<open>INFO\<close>), and the two flags.  Of the checks of \<open>parse_args\<close>
  the model has the one \<open>build_parser\<close> declares, the \<open>choices\<close> of \<open>--log-level\<close>: a value
  outside them is a usage error, which \<open>argparse\<close> reports through \<open>parser.error\<close>, and
  that prints to standard error and exits with status 2.
\<close>

definition LOG_LEVEL_CHOICES :: "string list" where
  "LOG_LEVEL_CHOICES = [''DEBUG'', ''INFO'', ''WARNING'', ''ERROR'']"

definition ARGPARSE_ERROR_STATUS :: nat where
  "ARGPARSE_ERROR_STATUS = 2"

definition parse_args :: "args \<Rightarrow> args action" where
  "parse_args a w =
     (if arg_log_level a \<in> set LOG_LEVEL_CHOICES then (Return a, w)
      else (SysExit ARGPARSE_ERROR_STATUS,
            print_err (''argument --log-level: invalid choice: '' @ arg_log_level a) w))"

definition path_parts :: "string \<Rightarrow> path" where
  \<comment> \<open>the names \<open>script_dir / s\<close> adds to \<open>script_dir\<close>: \<open>pathlib\<close> splits at \<open>/\<close> and drops
      empty names and \<open>.\<close>.  An identifier that starts with \<open>/\<close> or has a name \<open>..\<close> is a
      place outside the directory of the script; the model reads it as names below it\<close>
  "path_parts s = filter (\<lambda>name. name \<noteq> [] \<and> name \<noteq> ''.'') (split_char (CHR ''/'') s)"

definition relative_id :: "string \<Rightarrow> bool" where
  \<comment> \<open>the identifier names a place below the directory of the script, so that
      \<open>path_parts\<close> reads it as \<open>pathlib\<close> and the kernel do\<close>
  "relative_id s = (\<not> prefix ''/'' s \<and> ''..'' \<notin> set (split_char (CHR ''/'') s))"

definition rel_path_str :: "path \<Rightarrow> string" where
  \<comment> \<open>\<open>str(Path(s))\<close>\<close>
  "rel_path_str p = (if p = [] then ''.'' else join_names p)"

definition path_name :: "env \<Rightarrow> path \<Rightarrow> string" where
  \<comment> \<open>\<open>Path.name\<close>\<close>
  "path_name env p = (if p = [] then last (split_char (CHR ''/'') (script_dir env)) else last p)"

definition debug_report ::
  "env \<Rightarrow> string \<Rightarrow> string \<Rightarrow> string \<Rightarrow> string \<Rightarrow> path \<Rightarrow> path \<Rightarrow> bool \<Rightarrow> bool \<Rightarrow> world \<Rightarrow> world" where
  \<comment> \<open>the eight \<open>log.debug\<close> calls of \<open>main\<close>\<close>
  "debug_report env domain subdomain loc acme_email template_dir target_dir frc dry w =
     log_msg DEBUG (''Dry-run     : '' @ show_bool dry)
      (log_msg DEBUG (''Force       : '' @ show_bool frc)
        (log_msg DEBUG (''Target      : '' @ path_str env target_dir)
          (log_msg DEBUG (''Template    : '' @ path_str env template_dir)
            (log_msg DEBUG (''ACME email  : '' @ acme_email)
              (log_msg DEBUG (''Locale      : '' @ loc)
                (log_msg DEBUG (''Subdomain   : '' @ subdomain)
                  (log_msg DEBUG (''Domain      : '' @ domain) w)))))))"

definition deploy_steps ::
  "env \<Rightarrow> input_event \<Rightarrow> string \<Rightarrow> string \<Rightarrow> string \<Rightarrow> string \<Rightarrow> bool \<Rightarrow> bool \<Rightarrow> nat action" where
  \<comment> \<open>\<open>main\<close> from \<open>validate_environment\<close> to its \<open>return\<close>\<close>
  "deploy_steps env ev domain loc acme_email subdomain frc dry =
     (let template_dir = [TEMPLATE_DIR];
          target_dir = path_parts subdomain
      in and_then (validate_environment env template_dir)
        (and_then (handle_existing_target env target_dir frc dry ev)
        (and_then (\<lambda>w. (Return (), log_msg INFO (''Deploying '' @ domain @ '' to ''
                                      @ path_name env target_dir @ '' ...'') w))
        (and_then (copy_template env template_dir target_dir dry)
        (and_then (configure_env env (target_dir @ [''.env'']) domain acme_email subdomain dry)
        (and_then (configure_config_inc env
                     (target_dir @ [''volumes'', ''config'', ''config.inc.php''])
                     domain loc subdomain dry)
        (and_then (configure_compose env (target_dir @ [''compose.yml'']) subdomain dry)
        (and_then (set_permissions env target_dir dry)
          (\<lambda>w. (Return EXIT_SUCCESS,
                 if \<not> dry then print_summary domain (rel_path_str (path_parts subdomain)) w
                 else log_msg INFO
                        ''[DRY-RUN] Deployment preview complete. No changes were made.'' w))
        ))))))))"

definition email_or_default :: "string option \<Rightarrow> string \<Rightarrow> string" where
  \<comment> \<open>\<open>args.email or\<close> the default address \<open>admin\<close> at the domain: \<open>None\<close> and the empty
      string are both false\<close>
  "email_or_default given domain =
     (case given of
        None \<Rightarrow> ''admin@'' @ domain
      | Some e \<Rightarrow> if e = [] then ''admin@'' @ domain else e)"

definition main :: "args \<Rightarrow> env \<Rightarrow> input_event \<Rightarrow> nat action" where
  "main argv env ev w =
     (case parse_args argv w of
        (SysExit n, w') \<Rightarrow> (SysExit n, w')
      | (Raise e, w') \<Rightarrow> (Raise e, w')
      | (Return a, w') \<Rightarrow>
          (case configure_logging (arg_log_level a) w' of
             (SysExit n, w1) \<Rightarrow> (SysExit n, w1)
           | (Raise e, w1) \<Rightarrow> (Raise e, w1)
           | (Return u, w1) \<Rightarrow>
               let domain = arg_domain a;
                   loc = arg_locale a;
                   acme_email = email_or_default (arg_email a) domain;
                   frc = arg_force a;
                   dry = arg_dry_run a
               in (case extract_subdomain domain of
                     Inl e \<Rightarrow> (Raise e, w1)
                   | Inr subdomain \<Rightarrow>
                       deploy_steps env ev domain loc acme_email subdomain frc dry
                         (debug_report env domain subdomain loc acme_email [TEMPLATE_DIR]
                            (path_parts subdomain) frc dry w1))))"

definition deploy :: "args \<Rightarrow> env \<Rightarrow> input_event \<Rightarrow> node \<Rightarrow> nat \<times> world" where
  \<comment> \<open>the script run as a program: \<open>sys.exit(main())\<close> under the two handlers.  The pair is
      the exit status of the process and the world it leaves\<close>
  "deploy argv env ev root =
     (case main argv env ev (start_world root) of
        (Return status, w) \<Rightarrow> (status, w)
      | (SysExit n, w) \<Rightarrow> (n, w)
      | (Raise e, w) \<Rightarrow>
          if e = KeyboardInterrupt then (EXIT_USER_ERROR, print_err ''Aborted.'' w)
          else (EXIT_USER_ERROR, log_msg ERROR ''Fatal error'' w))"

section \<open>Example processes and trees\<close>

definition operator :: env where
  \<comment> \<open>an ordinary user, in no administrative group\<close>
  "operator = \<lparr>euid = 1000, egid = 1000, groups = [1000, 44],
               group_db = [1000 \<mapsto> ''deployer'', 44 \<mapsto> ''video''],
               script_dir = ''/srv/ojs''\<rparr>"

section \<open>Ways a call ends\<close>

definition stopped :: "'a result \<Rightarrow> bool" where
  \<comment> \<open>the call raised, or left with a status other than 0\<close>
  "stopped r = (case r of Return v \<Rightarrow> False | SysExit n \<Rightarrow> n \<noteq> 0 | Raise e \<Rightarrow> True)"

definition no_clean_exit :: "'a result \<Rightarrow> bool" where
  \<comment> \<open>the call returned, or raised, or left with a status other than 0\<close>
  "no_clean_exit r = (case r of Return v \<Rightarrow> True | SysExit n \<Rightarrow> n \<noteq> 0 | Raise e \<Rightarrow> True)"

definition superuser :: env where
  \<comment> \<open>root\<close>
  "superuser = \<lparr>euid = 0, egid = 0, groups = [0], group_db = [0 \<mapsto> ''root''],
                script_dir = ''/srv/ojs''\<rparr>"

definition bare_site :: node where
  \<comment> \<open>the directory of the script with a template that has neither \<open>.env\<close> nor
      \<open>compose.yml\<close>\<close>
  "bare_site = Dir (1000, 1000) [(''journal'', Dir (1000, 1000) [])]"

definition bare_site_with_demo :: node where
  \<comment> \<open>the same with a directory \<open>demo\<close> in the way\<close>
  "bare_site_with_demo =
     Dir (1000, 1000)
       [(''journal'', Dir (1000, 1000) []),
        (''demo'', Dir (1000, 1000) [(''notes.txt'', File ''keep me'' (1000, 1000))])]"

definition demo_args :: args where
  "demo_args = \<lparr>arg_domain = ''demo.example.com'', arg_locale = ''en'', arg_email = None,
                arg_force = False, arg_dry_run = False, arg_log_level = ''INFO''\<rparr>"

definition bare_deployed :: node where
  \<comment> \<open>\<open>bare_site\<close> after the superuser deployed \<open>demo.example.com\<close>\<close>
  "bare_deployed =
     Dir (1000, 1000) [(''journal'', Dir (1000, 1000) []), (''demo'', Dir (0, 0) [])]"

section \<open>Reading ownership\<close>

definition stat :: "node \<Rightarrow> path \<Rightarrow> (bool \<times> owner) option" where
  \<comment> \<open>what \<open>os.stat\<close> tells of a path: whether it is a directory, and its owner\<close>
  "stat root p = map_option (\<lambda>n. (is_dir_node n, node_owner n)) (lookup root p)"

definition owner_at :: "node \<Rightarrow> path \<Rightarrow> owner option" where
  "owner_at root p = map_option node_owner (lookup root p)"

definition in_subtree :: "node \<Rightarrow> path \<Rightarrow> path \<Rightarrow> bool" where
  \<comment> \<open>\<open>p\<close> is a path of the tree, at or below the directory \<open>d\<close>\<close>
  "in_subtree root d p = (path_is_dir root d \<and> prefix d p \<and> path_exists root p)"

definition volumes_site :: node where
  \<comment> \<open>an instance as a user with id 1000 copied it, before the ownership step\<close>
  "volumes_site =
     Dir (1000, 1000)
       [(''demo'',
           Dir (1000, 1000)
             [(''compose.yml'', File ''services:'' (1000, 1000)),
              (''volumes'',
                 Dir (1000, 1000)
                   [(''config'', Dir (1000, 1000) [(''config.inc.php'', File ''x'' (1000, 1000))]),
                    (''db'', Dir (1000, 1000) [(''ibdata1'', File ''y'' (1000, 1000))])])])]"

section \<open>Vocabulary for the run after the collision step\<close>

definition configure_and_own :: "env \<Rightarrow> string \<Rightarrow> string \<Rightarrow> string \<Rightarrow> string \<Rightarrow> nat action" where
  \<comment> \<open>steps 2 to 5 of \<open>main\<close> and its \<open>return\<close>, in a run that is not a dry run\<close>
  "configure_and_own env domain loc acme_email subdomain =
     and_then (configure_env env (path_parts subdomain @ [''.env'']) domain acme_email
                 subdomain False)
     (and_then (configure_config_inc env
                  (path_parts subdomain @ [''volumes'', ''config'', ''config.inc.php''])
                  domain loc subdomain False)
     (and_then (configure_compose env (path_parts subdomain @ [''compose.yml'']) subdomain False)
     (and_then (set_permissions env (path_parts subdomain) False)
        (\<lambda>w. (Return EXIT_SUCCESS,
               print_summary domain (rel_path_str (path_parts subdomain)) w)))))"

definition after_collision :: "env \<Rightarrow> string \<Rightarrow> string \<Rightarrow> string \<Rightarrow> string \<Rightarrow> nat action" where
  \<comment> \<open>\<open>main\<close> after \<open>handle_existing_target\<close>, in a run that is not a dry run\<close>
  "after_collision env domain loc acme_email subdomain =
     and_then (\<lambda>w. (Return (), log_msg INFO (''Deploying '' @ domain @ '' to ''
                                   @ path_name env (path_parts subdomain) @ '' ...'') w))
     (and_then (copy_template env [TEMPLATE_DIR] (path_parts subdomain) False)
        (configure_and_own env domain loc acme_email subdomain))"

definition tree_determined :: "'a action \<Rightarrow> bool" where
  \<comment> \<open>the result of the action and the tree it leaves depend on the tree alone, not on
      the logging threshold or on what was printed before\<close>
  "tree_determined f =
     (\<forall>w v. tree w = tree v \<longrightarrow> fst (f w) = fst (f v) \<and> tree (snd (f w)) = tree (snd (f v)))"

definition confined :: "path \<Rightarrow> 'a action \<Rightarrow> bool" where
  \<comment> \<open>the action changes the tree only strictly below the path: the tree without the
      path is the same before and after, and a directory at the path stays one\<close>
  "confined t f =
     (\<forall>w. remove_at t (tree (snd (f w))) = remove_at t (tree w)
          \<and> path_is_dir (tree (snd (f w))) t = path_is_dir (tree w) t)"

definition journal_site :: node where
  \<comment> \<open>the directory of the script with a full template, in which two files have a line
      ending \<open>CR LF\<close>, and an instance \<open>demo\<close> deployed earlier, in which one file was edited
      by hand and another was added\<close>
  "journal_site =
     Dir (1000, 1000)
       [(''journal'',
           Dir (1000, 1000)
             [(''.env'', File ''HOST={{DOMAIN}} MAIL={{ACME_EMAIL}} DB={{DB_HOST}}'' (1000, 1000)),
              (''compose.yml'', File ''{{JOURNAL}}: {{DATABASE}}:'' (1000, 1000)),
              (''README'', File (''see {{DOMAIN}}'' @ [CHR 0x0D, CHR 0x0A]) (1000, 1000)),
              (''volumes'',
                 Dir (1000, 1000)
                   [(''config'',
                       Dir (1000, 1000)
                         [(''config.inc.php'',
                             File (''base_url={{DOMAIN}}'' @ [CHR 0x0D, CHR 0x0A]
                                   @ ''locale={{LOCALE}} host={{DB_HOST}}'')
                               (1000, 1000))]),
                    (''db'', Dir (1000, 1000) [])])]),
        (''demo'',
           Dir (0, 0)
             [(''.env'', File ''HOST=edited.by.hand'' (0, 0)),
              (''notes.txt'', File ''written by hand'' (0, 0)),
              (''volumes'', Dir (33, 33) [(''db'', Dir (999, 999) [])])])]"

section \<open>Well-formed trees\<close>

fun wf_node :: "node \<Rightarrow> bool" where
  \<comment> \<open>no directory lists a name twice, as on a real file system\<close>
  "wf_node (File c ow) = True"
| "wf_node (Dir ow es) = (distinct (map fst es) \<and> (\<forall>e \<in> set es. wf_node (snd e)))"

section \<open>What is at a path\<close>

datatype entry = Directory | Regular string

fun entry_of :: "node \<Rightarrow> entry" where
  "entry_of (File c ow) = Regular c"
| "entry_of (Dir ow es) = Directory"

definition entry_at :: "node \<Rightarrow> path \<Rightarrow> entry option" where
  \<comment> \<open>what a path names: nothing, a directory, or a regular file with its bytes\<close>
  "entry_at root p = map_option entry_of (lookup root p)"

section \<open>What a deployment is to leave in the instance directory\<close>

text \<open>
  The substitutions of the specification, written on the bytes of a file: the file is
  read as UTF-8 text with universal newlines, every token of the list is replaced, one
  token after the other, and the text is written as UTF-8.  There is no result for bytes
  that are not UTF-8.
\<close>

definition scalar_value :: "nat \<Rightarrow> bool" where
  \<comment> \<open>a code point UTF-8 has bytes for: no surrogate, nothing above U+10FFFF\<close>
  "scalar_value n = (n < 1114112 \<and> \<not> (55296 \<le> n \<and> n \<le> 57343))"

definition substituted :: "(codepoints \<times> codepoints) list \<Rightarrow> string \<Rightarrow> string option" where
  "substituted pairs b =
     (case utf8_decode b of
        None \<Rightarrow> None
      | Some cps \<Rightarrow>
          utf8_encode (fold (\<lambda>pair. py_replace (fst pair) (snd pair)) pairs
                         (universal_newlines cps)))"

definition configured_bytes ::
  "string \<Rightarrow> string \<Rightarrow> string \<Rightarrow> string \<Rightarrow> path \<Rightarrow> string \<Rightarrow> string option" where
  \<comment> \<open>the bytes a deployment for the domain, locale and address is to leave in the file
      that has the path \<open>r\<close> in the instance directory, given the bytes of that file in the
      template: three files are configured, every other file is a copy\<close>
  "configured_bytes domain loc acme_email subdomain r b =
     (if r = [''.env'']
      then substituted [(text_of ''{{DOMAIN}}'', text_of domain),
                        (text_of ''{{ACME_EMAIL}}'', text_of acme_email),
                        (text_of ''{{DB_HOST}}'', text_of (''db-'' @ subdomain))] b
      else if r = [''volumes'', ''config'', ''config.inc.php'']
      then substituted [(text_of ''{{DOMAIN}}'', text_of domain),
                        (text_of ''{{LOCALE}}'', text_of loc),
                        (text_of ''{{DB_HOST}}'', text_of (''db-'' @ subdomain))] b
      else if r = [''compose.yml'']
      then substituted [(text_of ''{{JOURNAL}}'', text_of (''journal-'' @ subdomain)),
                        (text_of ''{{DATABASE}}'', text_of (''db-'' @ subdomain))] b
      else Some b)"

definition configured_entry ::
  "string \<Rightarrow> string \<Rightarrow> string \<Rightarrow> string \<Rightarrow> path \<Rightarrow> entry \<Rightarrow> entry option" where
  \<comment> \<open>the same for whatever the template has at \<open>r\<close>: a directory gives a directory\<close>
  "configured_entry domain loc acme_email subdomain r e =
     (case e of
        Directory \<Rightarrow> Some Directory
      | Regular b \<Rightarrow> map_option Regular (configured_bytes domain loc acme_email subdomain r b))"

definition CONFIGURED_FILES :: "path list" where
  "CONFIGURED_FILES =
     [[''.env''], [''volumes'', ''config'', ''config.inc.php''], [''compose.yml'']]"

definition substituted_entry :: "(codepoints \<times> codepoints) list \<Rightarrow> entry \<Rightarrow> entry option" where
  "substituted_entry pairs e =
     (case e of
        Directory \<Rightarrow> Some Directory
      | Regular b \<Rightarrow> map_option Regular (substituted pairs b))"

definition readable_or_missing :: "node \<Rightarrow> path \<Rightarrow> bool" where
  \<comment> \<open>nothing at the path, or a regular file of valid UTF-8\<close>
  "readable_or_missing root p =
     (case entry_at root p of
        None \<Rightarrow> True
      | Some Directory \<Rightarrow> False
      | Some (Regular b) \<Rightarrow> utf8_decode b \<noteq> None)"

definition template_ready :: "node \<Rightarrow> bool" where
  \<comment> \<open>each of the three files the deployer configures is, in the template, either missing
      or a regular file of valid UTF-8\<close>
  "template_ready root = list_all (\<lambda>r. readable_or_missing root (TEMPLATE_DIR # r)) CONFIGURED_FILES"

definition place_ready :: "node \<Rightarrow> path \<Rightarrow> bool \<Rightarrow> bool" where
  \<comment> \<open>the place of the instance is a directory and the run is forced, or the place is free
      and the directory it is to be made in exists\<close>
  "place_ready root t frc =
     (if path_exists root t then path_is_dir root t \<and> frc else path_is_dir root (butlast t))"

section \<open>Properties\<close>

subsection \<open>Instance identifier\<close>

lemma split_char_not_Nil: "split_char sep s \<noteq> []"
  by (induction s) (auto split: list.splits)

lemma split_char_hd: "hd (split_char sep s) = takeWhile (\<lambda>c. c \<noteq> sep) s"
  by (induction s) (auto split: list.splits simp: split_char_not_Nil)

lemma extract_subdomain_takeWhile:
  "extract_subdomain d = Inr (takeWhile (\<lambda>c. c \<noteq> CHR ''.'') d)"
proof -
  obtain w ws where "split_char (CHR ''.'') d = w # ws"
    using split_char_not_Nil [of "CHR ''.''" d] by (cases "split_char (CHR ''.'') d") auto
  moreover from this have "w = takeWhile (\<lambda>c. c \<noteq> CHR ''.'') d"
    using split_char_hd [of "CHR ''.''" d] by simp
  ultimately show ?thesis
    by (simp add: extract_subdomain_def index0_def)
qed

text \<open>
  C9.  For a domain with at least one dot the instance identifier is the text before the
  first dot: the domain is the identifier, a dot, and a rest, and the identifier has no
  dot.  For a domain with no dot the identifier is the whole domain.  Nothing is checked or
  cleaned in either case, and the call never raises.
\<close>

theorem extract_subdomain_first_label:
  "(CHR ''.'' \<in> set d \<longrightarrow>
      (\<exists>ident rest. extract_subdomain d = Inr ident \<and> d = ident @ CHR ''.'' # rest
         \<and> CHR ''.'' \<notin> set ident))
   \<and> (CHR ''.'' \<notin> set d \<longrightarrow> extract_subdomain d = Inr d)"
proof (intro conjI impI)
  assume dot: "CHR ''.'' \<in> set d"
  let ?i = "takeWhile (\<lambda>c. c \<noteq> CHR ''.'') d"
  let ?r = "dropWhile (\<lambda>c. c \<noteq> CHR ''.'') d"
  from dot have "?r \<noteq> []" by auto
  moreover have "?r \<noteq> [] \<Longrightarrow> hd ?r = CHR ''.''"
    using hd_dropWhile [of "\<lambda>c. c \<noteq> CHR ''.''" d] by simp
  ultimately obtain rest where r: "?r = CHR ''.'' # rest"
    by (cases ?r) auto
  have "d = ?i @ ?r" by simp
  with r have "d = ?i @ CHR ''.'' # rest" by simp
  moreover have "CHR ''.'' \<notin> set ?i"
    by (auto dest: set_takeWhileD)
  ultimately show "\<exists>ident rest. extract_subdomain d = Inr ident \<and> d = ident @ CHR ''.'' # rest
         \<and> CHR ''.'' \<notin> set ident"
    using extract_subdomain_takeWhile [of d] by blast
next
  assume "CHR ''.'' \<notin> set d"
  then have "takeWhile (\<lambda>c. c \<noteq> CHR ''.'') d = d"
    by (auto intro: takeWhile_eq_all_conv [THEN iffD2])
  then show "extract_subdomain d = Inr d"
    using extract_subdomain_takeWhile [of d] by simp
qed

theorem extract_subdomain_first_label_witness:
  "CHR ''.'' \<in> set ''journal1.example.com''
   \<and> extract_subdomain ''journal1.example.com'' = Inr ''journal1''
   \<and> CHR ''.'' \<notin> set ''localhost''
   \<and> extract_subdomain ''localhost'' = Inr ''localhost''"
proof -
  have a: "CHR ''.'' \<in> set ''journal1.example.com''" by simp
  have b: "CHR ''.'' \<notin> set ''localhost''" by simp
  from a extract_subdomain_first_label [of "''journal1.example.com''"]
  obtain ident rest where
    i: "extract_subdomain ''journal1.example.com'' = Inr ident"
       "''journal1.example.com'' = ident @ CHR ''.'' # rest" "CHR ''.'' \<notin> set ident"
    by blast
  from i(2,3) have "ident = ''journal1''"
    by (auto simp: append_eq_Cons_conv Cons_eq_append_conv)
  with i(1) have "extract_subdomain ''journal1.example.com'' = Inr ''journal1''" by simp
  moreover from b extract_subdomain_first_label [of "''localhost''"]
  have "extract_subdomain ''localhost'' = Inr ''localhost''" by blast
  ultimately show ?thesis using a b by simp
qed

subsection \<open>Cleanup tool\<close>

lemma py_lower_YES: "py_lower ''YES'' = ''yes''"
  by code_simp

text \<open>
  Against C1 as it is stated, at the answer \<open>YES\<close>: it is not the string \<open>yes\<close>, yet the
  tool goes on and hands its commands to the engine, here one on which each of them fails.
\<close>

theorem cleanup_uppercase_yes_runs_engine:
  "''YES'' \<noteq> ''yes''
   \<and> invoked (snd (clean_docker engine_down (Line ''YES''))) =
       [''docker ps -aq'', ''docker ps -aq'', ''docker images -q'', ''docker volume ls -q'',
        ''docker network prune -f'']"
  by (simp add: clean_docker_def py_input_def py_lower_YES cleanup_step_def run_command_def
      py_print_def cleanup_start_def truthy_def engine_down_def Let_def)

text \<open>
  C1, as the code has it.  The answer is lower-cased before it is compared with \<open>yes\<close>, and
  it is not stripped.  So every answer whose lower-cased form is not \<open>yes\<close> cancels the run
  with status 0 before any command reaches the engine, whatever the engine is; so does the
  end of input or an interrupt at the prompt, which ends the run with the exception.
\<close>

theorem cleanup_cancel_runs_nothing:
  "(py_lower confirm \<noteq> ''yes'' \<longrightarrow>
      fst (clean_docker eng (Line confirm)) = SysExit 0
      \<and> invoked (snd (clean_docker eng (Line confirm))) = [])
   \<and> invoked (snd (clean_docker eng EndOfInput)) = []
   \<and> invoked (snd (clean_docker eng Interrupt)) = []"
  by (simp add: clean_docker_def py_input_def py_print_def cleanup_start_def Let_def)

theorem cleanup_cancel_runs_nothing_witness:
  "py_lower '' yes '' \<noteq> ''yes''
   \<and> fst (clean_docker engine_down (Line '' yes '')) = SysExit 0
   \<and> invoked (snd (clean_docker engine_down (Line '' yes ''))) = []
   \<and> py_lower ''no'' \<noteq> ''yes''
   \<and> invoked (snd (clean_docker engine_down (Line ''no''))) = []"
proof -
  have a: "py_lower '' yes '' \<noteq> ''yes''" by (simp add: py_lower_def)
  have b: "py_lower ''no'' \<noteq> ''yes''" by (simp add: py_lower_def)
  show ?thesis
    using a b cleanup_cancel_runs_nothing [of "'' yes ''" engine_down]
      cleanup_cancel_runs_nothing [of "''no''" engine_down]
    by simp
qed

subsection \<open>Ownership step without privilege\<close>

lemma group_names_no_admin:
  "\<forall>g \<in> set gs. db g \<noteq> Some ''sudo'' \<and> db g \<noteq> Some ''wheel'' \<Longrightarrow>
   group_names db gs = Inr names \<Longrightarrow> \<forall>n \<in> set names. n \<noteq> ''sudo'' \<and> n \<noteq> ''wheel''"
  by (induction gs arbitrary: names) (auto split: option.splits sum.splits)

lemma has_privilege_unprivileged:
  assumes "euid env \<noteq> 0"
    and "\<forall>g \<in> set (groups env). group_db env g \<noteq> Some ''sudo'' \<and> group_db env g \<noteq> Some ''wheel''"
  shows "\<not> has_privilege env"
  using assms group_names_no_admin [of "groups env" "group_db env"]
  by (auto simp: has_privilege_def split: sum.splits)

lemma show_nat_33: "show_nat 33 = ''33''"
  by (simp add: show_nat.simps [of 33] show_nat.simps [of 3] digit_char_def)

lemma show_nat_999: "show_nat 999 = ''999''"
  by (simp add: show_nat.simps [of 999] show_nat.simps [of 99] show_nat.simps [of 9] digit_char_def)

text \<open>
  C6.  When the ownership step is run by a user who is not the superuser and none of whose
  groups is \<open>sudo\<close> or \<open>wheel\<close>, it exits with status 2, changes nothing, and logs four
  errors, the last two being the manual commands with the literal pairs 33:33 for the
  volumes directory and 999:999 for the database directory.  The errors are printed for
  every threshold up to ERROR, which are all the thresholds the command line can set.
\<close>

theorem set_permissions_unprivileged:
  assumes "euid env \<noteq> 0"
    and "\<forall>g \<in> set (groups env). group_db env g \<noteq> Some ''sudo'' \<and> group_db env g \<noteq> Some ''wheel''"
    and "threshold w \<le> level_no ERROR"
  shows "fst (set_permissions env target_dir dry w) = SysExit 2
    \<and> tree (snd (set_permissions env target_dir dry w)) = tree w
    \<and> emitted (snd (set_permissions env target_dir dry w)) = emitted w @
        [Log ERROR ''Access denied: You must be root or a member of the sudo/wheel group.'',
         Log ERROR ''Please manually run:'',
         Log ERROR (''  chown -R 33:33 '' @ path_str env (target_dir @ [''volumes''])),
         Log ERROR (''  chown -R 999:999 '' @ path_str env (target_dir @ [''volumes'', ''db'']))]"
  using has_privilege_unprivileged [OF assms(1,2)] assms(3)
  by (simp add: set_permissions_def Let_def log_msg_def EXIT_PERMISSION_ERROR_def
      WWW_DATA_UID_def WWW_DATA_GID_def MYSQL_UID_def MYSQL_GID_def show_nat_33 show_nat_999)

theorem set_permissions_unprivileged_witness:
  "fst (set_permissions operator [''journal1''] False (start_world (Dir (0, 0) []))) = SysExit 2
   \<and> emitted (snd (set_permissions operator [''journal1''] False (start_world (Dir (0, 0) [])))) =
        [Log ERROR ''Access denied: You must be root or a member of the sudo/wheel group.'',
         Log ERROR ''Please manually run:'',
         Log ERROR ''  chown -R 33:33 /srv/ojs/journal1/volumes'',
         Log ERROR ''  chown -R 999:999 /srv/ojs/journal1/volumes/db'']"
proof -
  have a: "euid operator \<noteq> 0" by (simp add: operator_def)
  have b: "\<forall>g \<in> set (groups operator).
             group_db operator g \<noteq> Some ''sudo'' \<and> group_db operator g \<noteq> Some ''wheel''"
    by (simp add: operator_def)
  have c: "threshold (start_world (Dir (0, 0) [])) \<le> level_no ERROR"
    by (simp add: start_world_def)
  show ?thesis
    using set_permissions_unprivileged [OF a b c, of "[''journal1'']" False]
    by (simp add: path_str_def operator_def start_world_def)
qed

subsection \<open>What logging and printing leave alone\<close>

lemma tree_log_msg [simp]: "tree (log_msg lv msg w) = tree w"
  by (simp add: log_msg_def)

lemma tree_print_out [simp]: "tree (print_out msg w) = tree w"
  by (simp add: print_out_def)

lemma tree_print_err [simp]: "tree (print_err msg w) = tree w"
  by (simp add: print_err_def)

lemma threshold_log_msg [simp]: "threshold (log_msg lv msg w) = threshold w"
  by (simp add: log_msg_def)

lemma tree_debug_report [simp]:
  "tree (debug_report env d s l m t1 t2 frc dry w) = tree w"
  by (simp add: debug_report_def)

lemma tree_print_summary [simp]: "tree (print_summary d t w) = tree w"
  by (simp add: print_summary_def)

lemma and_then_frame:
  assumes "\<And>w. tree (snd (f w)) = tree w" and "\<And>w. tree (snd (g w)) = tree w"
  shows "tree (snd (and_then f g w)) = tree w"
proof (cases "f w")
  case (Pair r w')
  with assms(1) [of w] have "tree w' = tree w" by simp
  with Pair assms(2) [of w'] show ?thesis
    by (cases r) (simp_all add: and_then_def)
qed

subsection \<open>Dry run\<close>

lemma validate_environment_frame: "tree (snd (validate_environment env t w)) = tree w"
  by (simp add: validate_environment_def)

lemma validate_environment_result:
  "fst (validate_environment env t w) =
     (if path_is_dir (tree w) t then Return () else SysExit 1)"
  by (simp add: validate_environment_def EXIT_USER_ERROR_def)

lemma handle_existing_target_dry_frame:
  "tree (snd (handle_existing_target env t frc True ev w)) = tree w"
  by (simp add: handle_existing_target_def)

lemma copy_template_dry_frame: "tree (snd (copy_template env s t True w)) = tree w"
  by (simp add: copy_template_def)

lemma replace_in_file_dry_frame: "tree (snd (replace_in_file env p rs True w)) = tree w"
  by (simp add: replace_in_file_def split: sum.splits prod.splits option.splits)

lemma chown_recursive_dry_frame: "tree (snd (chown_recursive env p u g True w)) = tree w"
  by (simp add: chown_recursive_def)

lemma set_permissions_dry_frame: "tree (snd (set_permissions env t True w)) = tree w"
  unfolding set_permissions_def Let_def
  by (auto intro!: and_then_frame simp: chown_recursive_dry_frame)

lemma deploy_steps_dry_frame:
  "tree (snd (deploy_steps env ev d l m s frc True w)) = tree w"
  unfolding deploy_steps_def Let_def configure_env_def configure_config_inc_def
    configure_compose_def
  by (intro and_then_frame validate_environment_frame handle_existing_target_dry_frame
      copy_template_dry_frame replace_in_file_dry_frame set_permissions_dry_frame) simp_all

lemma main_dry_frame:
  assumes "arg_dry_run a"
  shows "tree (snd (main a env ev w)) = tree w"
  using assms deploy_steps_dry_frame
  by (simp add: main_def parse_args_def configure_logging_def Let_def
      split: option.splits sum.splits)

text \<open>
  C2.  A run of the deployer with the dry-run flag leaves the whole tree below the script's
  directory as it was: the destination, whether it exists or not, and the template with
  it.  This holds for every command line, process, answer and tree, and for every way the
  run ends (collision handling, copy, the three substitutions and both ownership passes
  are all passed or cut short without a write).
\<close>

theorem deploy_dry_run_no_mutation:
  "arg_dry_run a \<Longrightarrow> tree (snd (deploy a env ev root)) = root"
proof -
  assume dry: "arg_dry_run a"
  have "tree (snd (main a env ev (start_world root))) = root"
    using main_dry_frame [OF dry, of env ev "start_world root"] by (simp add: start_world_def)
  then show ?thesis
    by (cases "main a env ev (start_world root)")
       (auto simp: deploy_def split: result.splits)
qed

subsection \<open>Runs that cannot end well\<close>

lemma and_then_stopped_second:
  assumes "\<And>w. no_clean_exit (fst (f w))" and "\<And>w. stopped (fst (g w))"
  shows "stopped (fst (and_then f g w))"
proof (cases "f w")
  case (Pair r w')
  with assms(1) [of w] assms(2) [of w'] show ?thesis
    by (cases r) (simp_all add: and_then_def stopped_def no_clean_exit_def)
qed

lemma and_then_stopped_first:
  assumes "\<And>w. stopped (fst (f w))"
  shows "stopped (fst (and_then f g w))"
proof (cases "f w")
  case (Pair r w')
  with assms [of w] show ?thesis
    by (cases r) (simp_all add: and_then_def stopped_def)
qed

lemma validate_environment_no_clean_exit:
  "no_clean_exit (fst (validate_environment env t w))"
  by (simp add: validate_environment_def no_clean_exit_def EXIT_USER_ERROR_def)

lemma handle_existing_target_no_clean_exit:
  "no_clean_exit (fst (handle_existing_target env t frc dry ev w))"
  by (cases ev)
     (auto simp: handle_existing_target_def no_clean_exit_def EXIT_USER_ERROR_def py_input_def
        Let_def split: sum.splits)

lemma copy_template_no_clean_exit: "no_clean_exit (fst (copy_template env s t dry w))"
  by (simp add: copy_template_def no_clean_exit_def split: sum.splits)

lemma replace_in_file_no_clean_exit: "no_clean_exit (fst (replace_in_file env p rs dry w))"
  by (simp add: replace_in_file_def no_clean_exit_def split: sum.splits prod.splits option.splits)

lemma set_permissions_stopped:
  "\<not> has_privilege env \<Longrightarrow> stopped (fst (set_permissions env t dry w))"
  by (simp add: set_permissions_def stopped_def EXIT_PERMISSION_ERROR_def)

lemma deploy_steps_stopped:
  assumes "\<not> has_privilege env"
  shows "stopped (fst (deploy_steps env ev d l m s frc dry w))"
  unfolding deploy_steps_def Let_def configure_env_def configure_config_inc_def
    configure_compose_def
  by (intro and_then_stopped_second and_then_stopped_first validate_environment_no_clean_exit
      handle_existing_target_no_clean_exit copy_template_no_clean_exit
      replace_in_file_no_clean_exit set_permissions_stopped [OF assms])
     (simp add: no_clean_exit_def)

lemma main_stopped:
  assumes "\<not> has_privilege env"
  shows "stopped (fst (main a env ev w))"
  using deploy_steps_stopped [OF assms]
  by (simp add: main_def parse_args_def configure_logging_def Let_def stopped_def
      ARGPARSE_ERROR_STATUS_def EXIT_USER_ERROR_def split: option.splits sum.splits)

lemma deploy_stopped_status:
  assumes "stopped (fst (main a env ev (start_world root)))"
  shows "fst (deploy a env ev root) \<noteq> 0"
  using assms
  by (cases "main a env ev (start_world root)")
     (auto simp: deploy_def stopped_def EXIT_USER_ERROR_def split: result.splits)

text \<open>
  C10.  The ownership step checks the privilege before it looks at the dry-run flag.  Run
  with the flag by a user who is not the superuser and has no group \<open>sudo\<close> or \<open>wheel\<close>,
  the step exits with status 2 all the same, and so a dry run of the deployer by such a user
  never ends with status 0, whatever the command line, the answer and the tree are.
\<close>

theorem dry_run_unprivileged_exits_2:
  assumes "euid env \<noteq> 0"
    and "\<forall>g \<in> set (groups env). group_db env g \<noteq> Some ''sudo'' \<and> group_db env g \<noteq> Some ''wheel''"
  shows "fst (set_permissions env target_dir True w) = SysExit EXIT_PERMISSION_ERROR
    \<and> EXIT_PERMISSION_ERROR = 2
    \<and> (arg_dry_run a \<longrightarrow> fst (deploy a env ev root) \<noteq> EXIT_SUCCESS)"
proof -
  have np: "\<not> has_privilege env"
    using assms by (rule has_privilege_unprivileged)
  then have "fst (set_permissions env target_dir True w) = SysExit EXIT_PERMISSION_ERROR"
    by (simp add: set_permissions_def)
  moreover have "fst (deploy a env ev root) \<noteq> EXIT_SUCCESS"
    using deploy_stopped_status [OF main_stopped [OF np]] by (simp add: EXIT_SUCCESS_def)
  ultimately show ?thesis by (simp add: EXIT_PERMISSION_ERROR_def)
qed

subsection \<open>Sequencing\<close>

lemma and_then_Return: "fst (f w) = Return u \<Longrightarrow> and_then f g w = g (snd (f w))"
  by (cases "f w") (simp add: and_then_def)

lemma and_then_SysExit:
  "fst (f w) = SysExit n \<Longrightarrow> and_then f g w = (SysExit n, snd (f w))"
  by (cases "f w") (simp add: and_then_def)

lemma and_then_Raise:
  "fst (f w) = Raise e \<Longrightarrow> and_then f g w = (Raise e, snd (f w))"
  by (cases "f w") (simp add: and_then_def)

subsection \<open>Command line\<close>

lemma logging_attr_choices:
  "lv \<in> set LOG_LEVEL_CHOICES \<Longrightarrow> logging_attr (map py_upper_ascii lv) \<noteq> None"
  by (auto simp: LOG_LEVEL_CHOICES_def logging_attr_def py_upper_ascii_def)

lemma main_valid_command_line:
  assumes "arg_log_level a \<in> set LOG_LEVEL_CHOICES"
    and "extract_subdomain (arg_domain a) = Inr sub"
  shows "\<exists>w1. tree w1 = tree w
    \<and> main a env ev w =
        deploy_steps env ev (arg_domain a) (arg_locale a)
          (email_or_default (arg_email a) (arg_domain a)) sub (arg_force a) (arg_dry_run a) w1"
proof -
  from logging_attr_choices [OF assms(1)]
  obtain numeric where "logging_attr (map py_upper_ascii (arg_log_level a)) = Some numeric"
    by auto
  with assms have "main a env ev w =
      deploy_steps env ev (arg_domain a) (arg_locale a)
        (email_or_default (arg_email a) (arg_domain a)) sub (arg_force a) (arg_dry_run a)
        (debug_report env (arg_domain a) sub (arg_locale a)
           (email_or_default (arg_email a) (arg_domain a)) [TEMPLATE_DIR] (path_parts sub)
           (arg_force a) (arg_dry_run a) (w\<lparr>threshold := numeric\<rparr>))"
    by (simp add: main_def parse_args_def configure_logging_def Let_def)
  moreover have "tree (debug_report env (arg_domain a) sub (arg_locale a)
           (email_or_default (arg_email a) (arg_domain a)) [TEMPLATE_DIR] (path_parts sub)
           (arg_force a) (arg_dry_run a) (w\<lparr>threshold := numeric\<rparr>)) = tree w"
    by simp
  ultimately show ?thesis by blast
qed

text \<open>
  C3 at the command line \<open>demo.example.com --log-level TRACE\<close>: the parser refuses the value
  and the process ends with status 2, the status the deployer keeps for a permission error,
  before \<open>_configure_logging\<close> is reached; \<open>_configure_logging\<close> itself would have ended with
  status 1.
\<close>

theorem invalid_log_level_exits_2:
  "fst (deploy (demo_args\<lparr>arg_log_level := ''TRACE''\<rparr>) env ev root) = 2
   \<and> EXIT_PERMISSION_ERROR = 2 \<and> EXIT_USER_ERROR = 1
   \<and> fst (configure_logging ''TRACE'' w) = SysExit EXIT_USER_ERROR"
  by (simp add: deploy_def main_def parse_args_def LOG_LEVEL_CHOICES_def demo_args_def
      ARGPARSE_ERROR_STATUS_def EXIT_PERMISSION_ERROR_def EXIT_USER_ERROR_def
      configure_logging_def logging_attr_def py_upper_ascii_def)


subsection \<open>Template validation\<close>

lemma validate_environment_passes:
  "path_is_dir (tree w) t \<Longrightarrow> fst (validate_environment env t w) = Return ()"
  by (simp add: validate_environment_def)

lemma validate_environment_fails:
  "\<not> path_is_dir (tree w) t \<Longrightarrow> fst (validate_environment env t w) = SysExit EXIT_USER_ERROR"
  by (simp add: validate_environment_def)

lemma deploy_status_SysExit:
  "fst (main a env ev (start_world root)) = SysExit n \<Longrightarrow>
   deploy a env ev root = (n, snd (main a env ev (start_world root)))"
  by (cases "main a env ev (start_world root)") (simp add: deploy_def)

lemma deploy_status_Return:
  "fst (main a env ev (start_world root)) = Return n \<Longrightarrow>
   deploy a env ev root = (n, snd (main a env ev (start_world root)))"
  by (cases "main a env ev (start_world root)") (simp add: deploy_def)

lemma deploy_steps_split:
  "deploy_steps env ev d l m s frc False =
     and_then (validate_environment env [TEMPLATE_DIR])
       (and_then (handle_existing_target env (path_parts s) frc False ev)
          (after_collision env d l m s))"
  by (simp add: deploy_steps_def after_collision_def configure_and_own_def Let_def)

lemma extract_subdomain_total: "\<exists>sub. extract_subdomain d = Inr sub"
  by (simp add: extract_subdomain_takeWhile)

text \<open>
  C4, as the code has it.  Only a template directory that is missing (or is not a
  directory) stops the run: the process exits with status 1 and the tree is as it was.
  When the template directory is there, validation returns whether \<open>.env\<close> and
  \<open>compose.yml\<close> are in it or not.  It leaves the tree and the logging threshold alone,
  and what it logs is one warning for each of the two names that is missing, in that
  order, when the threshold lets warnings through, and nothing otherwise.  A run that is
  not a dry run then goes on with the collision step, in the world validation left.
\<close>

theorem missing_template_dir_exits_1:
  "(arg_log_level a \<in> set LOG_LEVEL_CHOICES \<and> \<not> path_is_dir root [TEMPLATE_DIR] \<longrightarrow>
      fst (deploy a env ev root) = EXIT_USER_ERROR \<and> tree (snd (deploy a env ev root)) = root)
   \<and> (path_is_dir (tree w) t \<longrightarrow>
      fst (validate_environment env t w) = Return ()
      \<and> tree (snd (validate_environment env t w)) = tree w
      \<and> threshold (snd (validate_environment env t w)) = threshold w
      \<and> emitted (snd (validate_environment env t w)) =
          emitted w
          @ (if threshold w \<le> level_no WARNING
             then map (\<lambda>name. Log WARNING (''Expected template file missing: ''
                                            @ path_str env t @ ''/'' @ name))
                    (filter (\<lambda>name. \<not> path_exists (tree w) (t @ [name]))
                       [''.env'', ''compose.yml''])
             else []))
   \<and> (path_is_dir (tree w) [TEMPLATE_DIR] \<longrightarrow>
      deploy_steps env ev d l m s frc False w =
        and_then (handle_existing_target env (path_parts s) frc False ev)
          (after_collision env d l m s)
          (snd (validate_environment env [TEMPLATE_DIR] w)))"
proof (intro conjI impI)
  assume h: "arg_log_level a \<in> set LOG_LEVEL_CHOICES \<and> \<not> path_is_dir root [TEMPLATE_DIR]"
  obtain sub where sub: "extract_subdomain (arg_domain a) = Inr sub"
    using extract_subdomain_total by blast
  from main_valid_command_line [OF conjunct1 [OF h] sub, of "start_world root" env ev]
  obtain w1 where w1: "tree w1 = root"
    and m: "main a env ev (start_world root) =
        deploy_steps env ev (arg_domain a) (arg_locale a)
          (email_or_default (arg_email a) (arg_domain a)) sub (arg_force a) (arg_dry_run a) w1"
    by (auto simp: start_world_def)
  from h w1 have v: "fst (validate_environment env [TEMPLATE_DIR] w1) = SysExit EXIT_USER_ERROR"
    by (simp add: validate_environment_fails)
  have "main a env ev (start_world root) =
      (SysExit EXIT_USER_ERROR, snd (validate_environment env [TEMPLATE_DIR] w1))"
    unfolding m deploy_steps_def Let_def using v by (rule and_then_SysExit)
  with w1 have "fst (main a env ev (start_world root)) = SysExit EXIT_USER_ERROR"
    and "tree (snd (main a env ev (start_world root))) = root"
    by (simp_all add: validate_environment_frame)
  then show "fst (deploy a env ev root) = EXIT_USER_ERROR"
    and "tree (snd (deploy a env ev root)) = root"
    by (simp_all add: deploy_status_SysExit)
next
  assume "path_is_dir (tree w) t"
  then show "fst (validate_environment env t w) = Return ()"
    by (rule validate_environment_passes)
next
  show "tree (snd (validate_environment env t w)) = tree w"
    by (rule validate_environment_frame)
next
  assume "path_is_dir (tree w) t"
  then show "threshold (snd (validate_environment env t w)) = threshold w"
    by (simp add: validate_environment_def)
next
  assume "path_is_dir (tree w) t"
  then show "emitted (snd (validate_environment env t w)) =
          emitted w
          @ (if threshold w \<le> level_no WARNING
             then map (\<lambda>name. Log WARNING (''Expected template file missing: ''
                                            @ path_str env t @ ''/'' @ name))
                    (filter (\<lambda>name. \<not> path_exists (tree w) (t @ [name]))
                       [''.env'', ''compose.yml''])
             else [])"
    by (simp add: validate_environment_def log_msg_def)
next
  assume "path_is_dir (tree w) [TEMPLATE_DIR]"
  then have "fst (validate_environment env [TEMPLATE_DIR] w) = Return ()"
    by (rule validate_environment_passes)
  then show "deploy_steps env ev d l m s frc False w =
        and_then (handle_existing_target env (path_parts s) frc False ev)
          (after_collision env d l m s)
          (snd (validate_environment env [TEMPLATE_DIR] w))"
    unfolding deploy_steps_split
    by (rule and_then_Return [where f = "validate_environment env [TEMPLATE_DIR]"])
qed

theorem missing_template_dir_exits_1_witness:
  "arg_log_level demo_args \<in> set LOG_LEVEL_CHOICES
   \<and> \<not> path_is_dir (Dir (0, 0) []) [TEMPLATE_DIR]
   \<and> fst (deploy demo_args superuser EndOfInput (Dir (0, 0) [])) = 1
   \<and> tree (snd (deploy demo_args superuser EndOfInput (Dir (0, 0) []))) = Dir (0, 0) []
   \<and> path_is_dir (tree (start_world bare_site)) [TEMPLATE_DIR]
   \<and> \<not> path_exists bare_site [TEMPLATE_DIR, ''.env'']
   \<and> \<not> path_exists bare_site [TEMPLATE_DIR, ''compose.yml'']
   \<and> fst (validate_environment superuser [TEMPLATE_DIR] (start_world bare_site)) = Return ()
   \<and> tree (snd (validate_environment superuser [TEMPLATE_DIR] (start_world bare_site))) = bare_site
   \<and> emitted (snd (validate_environment superuser [TEMPLATE_DIR] (start_world bare_site))) =
       [Log WARNING ''Expected template file missing: /srv/ojs/journal/.env'',
        Log WARNING ''Expected template file missing: /srv/ojs/journal/compose.yml'']
   \<and> deploy_steps superuser EndOfInput ''demo.example.com'' ''en'' ''admin@demo.example.com''
         ''demo'' False False (start_world bare_site) =
       and_then (handle_existing_target superuser (path_parts ''demo'') False False EndOfInput)
         (after_collision superuser ''demo.example.com'' ''en'' ''admin@demo.example.com''
            ''demo'')
         (snd (validate_environment superuser [TEMPLATE_DIR] (start_world bare_site)))"
proof -
  have a: "arg_log_level demo_args \<in> set LOG_LEVEL_CHOICES"
    by (simp add: demo_args_def LOG_LEVEL_CHOICES_def)
  have b: "\<not> path_is_dir (Dir (0, 0) []) [TEMPLATE_DIR]"
    by (simp add: path_is_dir_def)
  have c: "path_is_dir (tree (start_world bare_site)) [TEMPLATE_DIR]"
    by (simp add: path_is_dir_def start_world_def bare_site_def TEMPLATE_DIR_def)
  have d: "\<not> path_exists bare_site [TEMPLATE_DIR, ''.env'']"
    "\<not> path_exists bare_site [TEMPLATE_DIR, ''compose.yml'']"
    by (simp_all add: path_exists_def bare_site_def TEMPLATE_DIR_def)
  have e: "tree (start_world bare_site) = bare_site"
    "threshold (start_world bare_site) = 30" "emitted (start_world bare_site) = []"
    by (simp_all add: start_world_def)
  have f: "path_str superuser [TEMPLATE_DIR] = ''/srv/ojs/journal''"
    by (simp add: path_str_def superuser_def TEMPLATE_DIR_def)
  show ?thesis
    using a b c d
      missing_template_dir_exits_1 [of demo_args "Dir (0, 0) []" superuser EndOfInput
        "start_world bare_site" "[TEMPLATE_DIR]" "''demo.example.com''" "''en''"
        "''admin@demo.example.com''" "''demo''" False]
    by (simp add: EXIT_USER_ERROR_def e f)
qed

subsection \<open>Two runs on a bare template, step by step\<close>

lemma and_then_step:
  assumes "fst (f w) = Return () \<and> tree (snd (f w)) = X"
    and "\<And>w'. tree w' = X \<Longrightarrow> fst (g w') = r \<and> tree (snd (g w')) = Y"
  shows "fst (and_then f g w) = r \<and> tree (snd (and_then f g w)) = Y"
  using assms by (simp add: and_then_Return)

lemma path_parts_demo: "path_parts ''demo'' = [''demo'']"
  by (simp add: path_parts_def)

lemma has_privilege_superuser: "has_privilege superuser"
  by (simp add: has_privilege_def superuser_def)

lemma bare_validate:
  "tree w = bare_site \<Longrightarrow>
   fst (validate_environment superuser [''journal''] w) = Return ()
   \<and> tree (snd (validate_environment superuser [''journal''] w)) = bare_site"
  by (simp add: validate_environment_def path_is_dir_def bare_site_def)

lemma bare_no_collision:
  "tree w = bare_site \<Longrightarrow>
   fst (handle_existing_target superuser [''demo''] frc False ev w) = Return ()
   \<and> tree (snd (handle_existing_target superuser [''demo''] frc False ev w)) = bare_site"
  by (simp add: handle_existing_target_def path_exists_def bare_site_def)

lemma bare_log:
  "tree w = X \<Longrightarrow>
   fst (Return (), log_msg lv msg w) = Return () \<and> tree (snd (Return (), log_msg lv msg w)) = X"
  by simp

lemma bare_copy:
  "tree w = bare_site \<Longrightarrow>
   fst (copy_template superuser [''journal''] [''demo''] False w) = Return ()
   \<and> tree (snd (copy_template superuser [''journal''] [''demo''] False w)) = bare_deployed"
  by (simp add: copy_template_def superuser_def copytree_def bare_site_def bare_deployed_def
      entry_put_def)

lemma bare_replace_skipped:
  "tree w = bare_deployed \<Longrightarrow> \<not> path_exists bare_deployed p \<Longrightarrow>
   fst (replace_in_file superuser p rs False w) = Return ()
   \<and> tree (snd (replace_in_file superuser p rs False w)) = bare_deployed"
  by (simp add: replace_in_file_def)

lemma bare_configure_env:
  "tree w = bare_deployed \<Longrightarrow>
   fst (configure_env superuser ([''demo''] @ [''.env'']) d m s False w) = Return ()
   \<and> tree (snd (configure_env superuser ([''demo''] @ [''.env'']) d m s False w)) = bare_deployed"
  unfolding configure_env_def
  by (erule bare_replace_skipped) (simp add: path_exists_def bare_deployed_def)

lemma bare_configure_config_inc:
  "tree w = bare_deployed \<Longrightarrow>
   fst (configure_config_inc superuser
          ([''demo''] @ [''volumes'', ''config'', ''config.inc.php'']) d l s False w) = Return ()
   \<and> tree (snd (configure_config_inc superuser
          ([''demo''] @ [''volumes'', ''config'', ''config.inc.php'']) d l s False w))
       = bare_deployed"
  unfolding configure_config_inc_def
  by (erule bare_replace_skipped) (simp add: path_exists_def bare_deployed_def)

lemma bare_configure_compose:
  "tree w = bare_deployed \<Longrightarrow>
   fst (configure_compose superuser ([''demo''] @ [''compose.yml'']) s False w) = Return ()
   \<and> tree (snd (configure_compose superuser ([''demo''] @ [''compose.yml'']) s False w))
       = bare_deployed"
  unfolding configure_compose_def
  by (erule bare_replace_skipped) (simp add: path_exists_def bare_deployed_def)

lemma bare_set_permissions:
  "tree w = bare_deployed \<Longrightarrow>
   fst (set_permissions superuser [''demo''] False w) = Return ()
   \<and> tree (snd (set_permissions superuser [''demo''] False w)) = bare_deployed"
  by (simp add: set_permissions_def has_privilege_superuser and_then_def chown_recursive_def
      bare_deployed_def walk_calls_def os_walk_def Let_def)

lemma bare_site_after_collision:
  assumes "tree w = bare_site"
    and fin: "\<And>w'. fst (fin w') = Return 0 \<and> tree (snd (fin w')) = tree w'"
  shows "fst ((and_then (\<lambda>w. (Return (), log_msg INFO msg w))
        (and_then (copy_template superuser [''journal''] [''demo''] False)
        (and_then (configure_env superuser ([''demo''] @ [''.env'']) d m ''demo'' False)
        (and_then (configure_config_inc superuser
                     ([''demo''] @ [''volumes'', ''config'', ''config.inc.php''])
                     d l ''demo'' False)
        (and_then (configure_compose superuser ([''demo''] @ [''compose.yml'']) ''demo'' False)
        (and_then (set_permissions superuser [''demo''] False)
          fin)))))) w) = Return 0
    \<and> tree (snd ((and_then (\<lambda>w. (Return (), log_msg INFO msg w))
        (and_then (copy_template superuser [''journal''] [''demo''] False)
        (and_then (configure_env superuser ([''demo''] @ [''.env'']) d m ''demo'' False)
        (and_then (configure_config_inc superuser
                     ([''demo''] @ [''volumes'', ''config'', ''config.inc.php''])
                     d l ''demo'' False)
        (and_then (configure_compose superuser ([''demo''] @ [''compose.yml'']) ''demo'' False)
        (and_then (set_permissions superuser [''demo''] False)
          fin)))))) w)) = bare_deployed"
  using assms(1)
  apply -
  apply (rule and_then_step, erule bare_log)
  apply (rule and_then_step, erule bare_copy)
  apply (rule and_then_step, erule bare_configure_env)
  apply (rule and_then_step, erule bare_configure_config_inc)
  apply (rule and_then_step, erule bare_configure_compose)
  apply (rule and_then_step, erule bare_set_permissions)
  apply (simp add: fin)
  done

lemma bare_site_steps:
  assumes "tree w = bare_site"
  shows "fst (deploy_steps superuser ev d l m ''demo'' frc False w) = Return 0
    \<and> tree (snd (deploy_steps superuser ev d l m ''demo'' frc False w)) = bare_deployed"
  unfolding deploy_steps_def Let_def path_parts_demo TEMPLATE_DIR_def
  using assms
  apply -
  apply (rule and_then_step, erule bare_validate)
  apply (rule and_then_step, erule bare_no_collision)
  apply (erule bare_site_after_collision)
  apply (simp add: EXIT_SUCCESS_def)
  done

lemma extract_subdomain_demo: "extract_subdomain ''demo.example.com'' = Inr ''demo''"
  by (simp add: extract_subdomain_def index0_def)

text \<open>
  Against C4 as it is stated, at a template directory that has neither \<open>.env\<close> nor
  \<open>compose.yml\<close>: the superuser's run goes through, ends with status 0 and leaves the new,
  empty instance directory.
\<close>

theorem missing_markers_still_deploys:
  "\<not> path_exists bare_site [TEMPLATE_DIR, ''.env'']
   \<and> \<not> path_exists bare_site [TEMPLATE_DIR, ''compose.yml'']
   \<and> fst (deploy demo_args superuser EndOfInput bare_site) = 0
   \<and> lookup (tree (snd (deploy demo_args superuser EndOfInput bare_site))) [''demo'']
       = Some (Dir (0, 0) [])"
proof -
  have lv: "arg_log_level demo_args \<in> set LOG_LEVEL_CHOICES"
    by (simp add: demo_args_def LOG_LEVEL_CHOICES_def)
  have sub: "extract_subdomain (arg_domain demo_args) = Inr ''demo''"
    by (simp add: demo_args_def extract_subdomain_demo)
  from main_valid_command_line [OF lv sub, of "start_world bare_site" superuser EndOfInput]
  obtain w1 where w1: "tree w1 = bare_site"
    and m: "main demo_args superuser EndOfInput (start_world bare_site) =
        deploy_steps superuser EndOfInput (arg_domain demo_args) (arg_locale demo_args)
          (email_or_default (arg_email demo_args) (arg_domain demo_args)) ''demo''
          (arg_force demo_args) (arg_dry_run demo_args) w1"
    by (auto simp: start_world_def)
  have dry: "arg_dry_run demo_args = False" by (simp add: demo_args_def)
  from bare_site_steps [OF w1] m dry
  have "fst (main demo_args superuser EndOfInput (start_world bare_site)) = Return 0"
    and "tree (snd (main demo_args superuser EndOfInput (start_world bare_site))) = bare_deployed"
    by simp_all
  then have "fst (deploy demo_args superuser EndOfInput bare_site) = 0"
    and "tree (snd (deploy demo_args superuser EndOfInput bare_site)) = bare_deployed"
    by (simp_all add: deploy_status_Return)
  then show ?thesis
    by (simp add: path_exists_def bare_site_def bare_deployed_def TEMPLATE_DIR_def)
qed

subsection \<open>Declining the overwrite\<close>

lemma bare_demo_validate:
  "tree w = bare_site_with_demo \<Longrightarrow>
   fst (validate_environment superuser [''journal''] w) = Return ()
   \<and> tree (snd (validate_environment superuser [''journal''] w)) = bare_site_with_demo"
  by (simp add: validate_environment_def path_is_dir_def bare_site_with_demo_def)

lemma strip_lower_space_y: "py_lower (py_strip '' y'') = ''y''"
  by (simp add: py_strip_def py_isspace_def py_lower_def char_lower_def)

lemma bare_demo_overwrite:
  "tree w = bare_site_with_demo \<Longrightarrow>
   fst (handle_existing_target superuser [''demo''] False False (Line '' y'') w) = Return ()
   \<and> tree (snd (handle_existing_target superuser [''demo''] False False (Line '' y'') w))
       = bare_site"
  by (simp add: handle_existing_target_def path_exists_def bare_site_with_demo_def
      py_input_def strip_lower_space_y rmtree_def entry_delete_def bare_site_def Let_def)

text \<open>
  Against C5 as it is stated, at the answer \<open>" y"\<close> (a space, then \<open>y\<close>): compared without
  regard to case it is neither \<open>y\<close> nor \<open>yes\<close>, yet the deployer strips it first, takes it
  as consent, deletes the directory in the way and ends with status 0.
\<close>

theorem padded_yes_overwrites:
  "py_lower '' y'' \<noteq> ''y'' \<and> py_lower '' y'' \<noteq> ''yes''
   \<and> \<not> arg_force demo_args \<and> \<not> arg_dry_run demo_args
   \<and> lookup bare_site_with_demo [''demo'', ''notes.txt''] = Some (File ''keep me'' (1000, 1000))
   \<and> fst (deploy demo_args superuser (Line '' y'') bare_site_with_demo) = 0
   \<and> lookup (tree (snd (deploy demo_args superuser (Line '' y'') bare_site_with_demo)))
        [''demo'', ''notes.txt''] = None"
proof -
  have lv: "arg_log_level demo_args \<in> set LOG_LEVEL_CHOICES"
    by (simp add: demo_args_def LOG_LEVEL_CHOICES_def)
  have sub: "extract_subdomain (arg_domain demo_args) = Inr ''demo''"
    by (simp add: demo_args_def extract_subdomain_demo)
  from main_valid_command_line [OF lv sub, of "start_world bare_site_with_demo" superuser
      "Line '' y''"]
  obtain w1 where w1: "tree w1 = bare_site_with_demo"
    and m: "main demo_args superuser (Line '' y'') (start_world bare_site_with_demo) =
        deploy_steps superuser (Line '' y'') (arg_domain demo_args) (arg_locale demo_args)
          (email_or_default (arg_email demo_args) (arg_domain demo_args)) ''demo''
          (arg_force demo_args) (arg_dry_run demo_args) w1"
    by (auto simp: start_world_def)
  have flags: "arg_dry_run demo_args = False" "arg_force demo_args = False"
    by (simp_all add: demo_args_def)
  have "fst (deploy_steps superuser (Line '' y'') d l e ''demo'' False False w1) = Return 0
    \<and> tree (snd (deploy_steps superuser (Line '' y'') d l e ''demo'' False False w1))
        = bare_deployed" for d l e
    unfolding deploy_steps_def Let_def path_parts_demo TEMPLATE_DIR_def
    using w1
    apply -
    apply (rule and_then_step, erule bare_demo_validate)
    apply (rule and_then_step, erule bare_demo_overwrite)
    apply (erule bare_site_after_collision)
    apply (simp add: EXIT_SUCCESS_def)
    done
  with m flags
  have "fst (main demo_args superuser (Line '' y'') (start_world bare_site_with_demo)) = Return 0"
    and "tree (snd (main demo_args superuser (Line '' y'') (start_world bare_site_with_demo)))
          = bare_deployed"
    by simp_all
  then have "fst (deploy demo_args superuser (Line '' y'') bare_site_with_demo) = 0"
    and "tree (snd (deploy demo_args superuser (Line '' y'') bare_site_with_demo)) = bare_deployed"
    by (simp_all add: deploy_status_Return)
  then show ?thesis
    by (simp add: bare_site_with_demo_def bare_deployed_def demo_args_def py_lower_def)
qed

lemma handle_existing_target_declined:
  assumes "path_exists (tree w) t"
    and "ev = EndOfInput \<or> ev = Interrupt
         \<or> (\<exists>answer. ev = Line answer \<and> py_lower (py_strip answer) \<noteq> ''y''
              \<and> py_lower (py_strip answer) \<noteq> ''yes'')"
  shows "fst (handle_existing_target env t False False ev w) = SysExit EXIT_USER_ERROR"
    and "tree (snd (handle_existing_target env t False False ev w)) = tree w"
  using assms
  by (auto simp: handle_existing_target_def py_input_def Let_def)

text \<open>
  C5, as the code has it.  On a command line the parser accepts, without \<open>--force\<close> and
  without \<open>--dry-run\<close>, when the destination, a place below the directory of the script,
  exists: the end of input, an interrupt, and every answer that, stripped of surrounding
  white space and lower-cased, is neither \<open>y\<close> nor \<open>yes\<close>, make the process exit with
  status 1, and the tree, the destination with it, is as it was.
\<close>

theorem declined_overwrite_exits_1:
  assumes "arg_log_level a \<in> set LOG_LEVEL_CHOICES"
    and "\<not> arg_force a" and "\<not> arg_dry_run a"
    and "extract_subdomain (arg_domain a) = Inr sub"
    and "path_exists root (path_parts sub)"
    and "ev = EndOfInput \<or> ev = Interrupt
         \<or> (\<exists>answer. ev = Line answer \<and> py_lower (py_strip answer) \<noteq> ''y''
              \<and> py_lower (py_strip answer) \<noteq> ''yes'')"
    and "relative_id sub"
  shows "fst (deploy a env ev root) = EXIT_USER_ERROR
    \<and> tree (snd (deploy a env ev root)) = root"
proof -
  from main_valid_command_line [OF assms(1,4), of "start_world root" env ev]
  obtain w1 where w1: "tree w1 = root"
    and m: "main a env ev (start_world root) =
        deploy_steps env ev (arg_domain a) (arg_locale a)
          (email_or_default (arg_email a) (arg_domain a)) sub False False w1"
    using assms(2,3) by (auto simp: start_world_def)
  let ?v = "validate_environment env [TEMPLATE_DIR] w1"
  have vt: "tree (snd ?v) = root"
    using w1 by (simp add: validate_environment_frame)
  have "fst (main a env ev (start_world root)) = SysExit EXIT_USER_ERROR
    \<and> tree (snd (main a env ev (start_world root))) = root"
  proof (cases "path_is_dir (tree w1) [TEMPLATE_DIR]")
    case False
    then have v: "fst ?v = SysExit EXIT_USER_ERROR"
      by (rule validate_environment_fails)
    have "main a env ev (start_world root) = (SysExit EXIT_USER_ERROR, snd ?v)"
      unfolding m deploy_steps_def Let_def using v by (rule and_then_SysExit)
    with vt show ?thesis by simp
  next
    case True
    then have v: "fst ?v = Return ()"
      by (rule validate_environment_passes)
    let ?h = "handle_existing_target env (path_parts sub) False False ev (snd ?v)"
    from vt assms(5) have ex: "path_exists (tree (snd ?v)) (path_parts sub)" by simp
    have h: "fst ?h = SysExit EXIT_USER_ERROR" and ht: "tree (snd ?h) = root"
      using handle_existing_target_declined [OF ex assms(6)] vt by simp_all
    have "main a env ev (start_world root) = (SysExit EXIT_USER_ERROR, snd ?h)"
      unfolding m deploy_steps_def Let_def
      using v h
      by (simp add: and_then_Return [where f = "validate_environment env [TEMPLATE_DIR]"]
          and_then_SysExit
            [where f = "handle_existing_target env (path_parts sub) False False ev"])
    with ht show ?thesis by simp
  qed
  then show ?thesis
    by (simp add: deploy_status_SysExit)
qed

theorem declined_overwrite_exits_1_witness:
  "arg_log_level demo_args \<in> set LOG_LEVEL_CHOICES
   \<and> \<not> arg_force demo_args \<and> \<not> arg_dry_run demo_args
   \<and> extract_subdomain (arg_domain demo_args) = Inr ''demo''
   \<and> path_exists bare_site_with_demo (path_parts ''demo'')
   \<and> relative_id ''demo''
   \<and> py_lower (py_strip ''n'') \<noteq> ''y'' \<and> py_lower (py_strip ''n'') \<noteq> ''yes''
   \<and> fst (deploy demo_args superuser (Line ''n'') bare_site_with_demo) = 1
   \<and> tree (snd (deploy demo_args superuser (Line ''n'') bare_site_with_demo))
       = bare_site_with_demo"
proof -
  have a: "arg_log_level demo_args \<in> set LOG_LEVEL_CHOICES"
    by (simp add: demo_args_def LOG_LEVEL_CHOICES_def)
  have b: "\<not> arg_force demo_args" and c: "\<not> arg_dry_run demo_args"
    by (simp_all add: demo_args_def)
  have d: "extract_subdomain (arg_domain demo_args) = Inr ''demo''"
    by (simp add: demo_args_def extract_subdomain_demo)
  have e: "path_exists bare_site_with_demo (path_parts ''demo'')"
    by (simp add: path_parts_demo path_exists_def bare_site_with_demo_def)
  have g: "relative_id ''demo''"
    by (simp add: relative_id_def)
  have n: "py_lower (py_strip ''n'') = ''n''"
    by (simp add: py_strip_def py_isspace_def py_lower_def char_lower_def)
  then have f: "Line ''n'' = EndOfInput \<or> Line ''n'' = Interrupt
         \<or> (\<exists>answer. Line ''n'' = Line answer \<and> py_lower (py_strip answer) \<noteq> ''y''
              \<and> py_lower (py_strip answer) \<noteq> ''yes'')"
    by simp
  show ?thesis
    using a b c d e n g declined_overwrite_exits_1 [OF a b c d e f g, of superuser]
    by (simp add: EXIT_USER_ERROR_def)
qed

subsection \<open>The dry run on an example\<close>

theorem deploy_dry_run_no_mutation_witness:
  "arg_dry_run (demo_args\<lparr>arg_dry_run := True\<rparr>)
   \<and> tree (snd (deploy (demo_args\<lparr>arg_dry_run := True\<rparr>) superuser EndOfInput
              bare_site_with_demo)) = bare_site_with_demo"
  using deploy_dry_run_no_mutation [of "demo_args\<lparr>arg_dry_run := True\<rparr>" superuser EndOfInput
      bare_site_with_demo]
  by simp

theorem dry_run_unprivileged_exits_2_witness:
  "euid operator \<noteq> 0
   \<and> groups operator = [1000, 44]
   \<and> group_db operator 1000 = Some ''deployer'' \<and> group_db operator 44 = Some ''video''
   \<and> fst (set_permissions operator [''demo''] True (start_world bare_site)) = SysExit 2
   \<and> arg_dry_run (demo_args\<lparr>arg_dry_run := True\<rparr>)
   \<and> fst (deploy (demo_args\<lparr>arg_dry_run := True\<rparr>) operator EndOfInput bare_site) \<noteq> 0"
proof -
  have a: "euid operator \<noteq> 0" by (simp add: operator_def)
  have b: "\<forall>g \<in> set (groups operator).
             group_db operator g \<noteq> Some ''sudo'' \<and> group_db operator g \<noteq> Some ''wheel''"
    by (simp add: operator_def)
  have c: "groups operator = [1000, 44]"
    and d: "group_db operator 1000 = Some ''deployer''" "group_db operator 44 = Some ''video''"
    by (simp_all add: operator_def)
  show ?thesis
    using a c d dry_run_unprivileged_exits_2 [OF a b, of "[''demo'']" "start_world bare_site"
        "demo_args\<lparr>arg_dry_run := True\<rparr>" EndOfInput bare_site]
    by (simp add: EXIT_SUCCESS_def)
qed

subsection \<open>Paths and single changes\<close>

lemma lookup_append:
  "lookup root (p @ r) = (case lookup root p of None \<Rightarrow> None | Some n \<Rightarrow> lookup n r)"
proof (induction p arbitrary: root)
  case Nil
  show ?case by simp
next
  case (Cons x xs)
  show ?case
    by (cases root) (auto simp: Cons.IH split: option.splits)
qed

lemma lookup_File_Cons: "lookup (File c ow) p = Some n \<Longrightarrow> p = []"
  by (cases p) simp_all

lemma map_of_entry_modify:
  "map_of (entry_modify x g es) y = (if y = x then map_option g (map_of es x) else map_of es y)"
  by (induction es) auto

lemma path_is_dir_stat: "path_is_dir root p \<longleftrightarrow> (\<exists>ow. stat root p = Some (True, ow))"
proof (cases "lookup root p")
  case None
  then show ?thesis by (simp add: path_is_dir_def stat_def)
next
  case (Some n)
  then show ?thesis by (cases n) (simp_all add: path_is_dir_def stat_def)
qed

lemma path_exists_stat: "path_exists root p \<longleftrightarrow> stat root p \<noteq> None"
  by (simp add: path_exists_def stat_def)

lemma owner_at_stat: "owner_at root p = map_option snd (stat root p)"
  by (simp add: owner_at_def stat_def option.map_comp comp_def)

lemma stat_set_owner_root:
  "stat (set_owner ow n) q = (if q = [] then Some (is_dir_node n, ow) else stat n q)"
  by (cases n; cases q) (simp_all add: stat_def)

lemma stat_chown:
  "stat (modify_at p (set_owner ow) root) q =
     (if q = p then map_option (\<lambda>s. (fst s, ow)) (stat root q) else stat root q)"
proof (induction p arbitrary: root q)
  case Nil
  show ?case by (cases root; cases q) (simp_all add: stat_def)
next
  case (Cons x xs)
  note IH = Cons.IH
  show ?case
  proof (cases root)
    case (File c old)
    then show ?thesis by (cases q) (simp_all add: stat_def)
  next
    case (Dir old es)
    show ?thesis
    proof (cases q)
      case Nil
      with Dir show ?thesis by (simp add: stat_def)
    next
      case (Cons y ys)
      show ?thesis
      proof (cases "map_of es y")
        case None
        with Dir Cons show ?thesis by (auto simp: stat_def map_of_entry_modify)
      next
        case (Some child)
        have "stat (modify_at xs (set_owner ow) child) ys =
            (if ys = xs then map_option (\<lambda>s. (fst s, ow)) (stat child ys) else stat child ys)"
          by (rule IH)
        with Dir Cons Some show ?thesis
          by (auto simp: stat_def map_of_entry_modify)
      qed
    qed
  qed
qed


subsection \<open>The loop of ownership changes\<close>

lemma os_chown_stat:
  "os_chown env ow p root = Inr root' \<Longrightarrow>
   stat root' q = (if q = p then map_option (\<lambda>s. (fst s, ow)) (stat root q) else stat root q)"
  by (auto simp: os_chown_def stat_chown split: option.splits if_splits)

lemma chown_paths_stat:
  "chown_paths env ow ps root = (Return (), root') \<Longrightarrow>
   stat root' q =
     (if q \<in> set ps then map_option (\<lambda>s. (fst s, ow)) (stat root q) else stat root q)"
proof (induction ps arbitrary: root)
  case Nil
  then show ?case by simp
next
  case (Cons p ps)
  from Cons.prems obtain mid where
    one: "os_chown env ow p root = Inr mid" and
    rest: "chown_paths env ow ps mid = (Return (), root')"
    by (auto split: sum.splits)
  have "stat root' q =
      (if q \<in> set ps then map_option (\<lambda>s. (fst s, ow)) (stat mid q) else stat mid q)"
    using rest by (rule Cons.IH)
  moreover have "stat mid q =
      (if q = p then map_option (\<lambda>s. (fst s, ow)) (stat root q) else stat root q)"
    using one by (rule os_chown_stat)
  ultimately show ?case
    by (cases "stat root q") auto
qed

lemma walk_calls_Cons:
  "walk_calls ((d, dns, fns) # ws) = (d # map (\<lambda>name. d @ [name]) (dns @ fns)) @ walk_calls ws"
  by (simp add: walk_calls_def)

lemma walk_calls_append: "walk_calls (a @ b) = walk_calls a @ walk_calls b"
  by (simp add: walk_calls_def)

lemma set_walk_calls_concat:
  "set (walk_calls (concat wss)) = (\<Union>ws \<in> set wss. set (walk_calls ws))"
  by (induction wss) (simp_all add: walk_calls_append, simp add: walk_calls_def)

lemma names_of_entries: "set (dirnames es @ filenames es) = fst ` set es"
  by (auto simp: dirnames_def filenames_def)

lemma set_walk_calls_Dir:
  "set (walk_calls (walk p (Dir ow es))) =
     insert p ((\<lambda>name. p @ [name]) ` fst ` set es)
     \<union> (\<Union>e \<in> {e \<in> set es. is_dir_node (snd e)}. set (walk_calls (walk (p @ [fst e]) (snd e))))"
proof -
  have names: "set (map (\<lambda>name. p @ [name]) (dirnames es @ filenames es))
      = (\<lambda>name. p @ [name]) ` fst ` set es"
    unfolding set_map names_of_entries ..
  have subs: "set (walk_calls (concat (map (\<lambda>e. walk (p @ [fst e]) (snd e))
                 (filter (\<lambda>e. is_dir_node (snd e)) es))))
      = (\<Union>e \<in> {e \<in> set es. is_dir_node (snd e)}. set (walk_calls (walk (p @ [fst e]) (snd e))))"
    unfolding set_walk_calls_concat by auto
  have "set (walk_calls (walk p (Dir ow es)))
      = set (p # map (\<lambda>name. p @ [name]) (dirnames es @ filenames es))
        \<union> set (walk_calls (concat (map (\<lambda>e. walk (p @ [fst e]) (snd e))
                 (filter (\<lambda>e. is_dir_node (snd e)) es))))"
    by (simp only: walk.simps walk_calls_Cons set_append)
  also have "\<dots> = insert p ((\<lambda>name. p @ [name]) ` fst ` set es)
     \<union> (\<Union>e \<in> {e \<in> set es. is_dir_node (snd e)}. set (walk_calls (walk (p @ [fst e]) (snd e))))"
    unfolding subs list.set(2) names ..
  finally show ?thesis .
qed

lemma walk_covers:
  "is_dir_node n \<Longrightarrow> lookup n r \<noteq> None \<Longrightarrow> base @ r \<in> set (walk_calls (walk base n))"
proof (induction r arbitrary: base n)
  case Nil
  then show ?case by (cases n) (simp_all add: walk_calls_Cons)
next
  case (Cons x r)
  from Cons.prems obtain ow es where n: "n = Dir ow es"
    by (cases n) auto
  with Cons.prems obtain child where child: "map_of es x = Some child"
    and below: "lookup child r \<noteq> None"
    by (auto split: option.splits)
  from child have mem: "(x, child) \<in> set es"
    by (rule map_of_SomeD)
  show ?case
  proof (cases "is_dir_node child")
    case True
    from Cons.IH [OF True below, of "base @ [x]"]
    have "base @ x # r \<in> set (walk_calls (walk (base @ [x]) child))" by simp
    with mem True have "\<exists>e \<in> {e \<in> set es. is_dir_node (snd e)}.
        base @ x # r \<in> set (walk_calls (walk (base @ [fst e]) (snd e)))"
      by (intro bexI [of _ "(x, child)"]) simp_all
    then show ?thesis
      unfolding n set_walk_calls_Dir by blast
  next
    case False
    then obtain c cow where "child = File c cow" by (cases child) auto
    with below have "r = []" by (cases r) auto
    moreover from mem have "x \<in> fst ` set es" by force
    ultimately show ?thesis
      unfolding n set_walk_calls_Dir by blast
  qed
qed

lemma walk_calls_below:
  "q \<in> set (walk_calls (walk base n)) \<Longrightarrow> prefix base q"
proof (induction base n arbitrary: q rule: walk.induct)
  case (1 p c ow)
  then show ?case by (simp add: walk_calls_def)
next
  case (2 p ow es)
  from "2.prems" consider "q = p" | name where "q = p @ [name]"
    | e where "e \<in> set es" "is_dir_node (snd e)" "q \<in> set (walk_calls (walk (p @ [fst e]) (snd e)))"
    unfolding set_walk_calls_Dir by auto
  then show ?case
  proof cases
    case 1
    then show ?thesis by simp
  next
    case 2
    then show ?thesis by simp
  next
    case 3
    then have "prefix (p @ [fst e]) q"
      using "2.IH" [of e q] by simp
    then show ?thesis
      by (rule append_prefixD)
  qed
qed

lemma walk_calls_nonempty_dir: "walk_calls (walk base n) \<noteq> [] \<Longrightarrow> is_dir_node n"
  by (cases n) (simp_all add: walk_calls_def)

subsection \<open>Both ownership passes\<close>

lemma in_subtree_called:
  assumes "in_subtree root d q"
  shows "q \<in> set (walk_calls (os_walk root d))"
proof -
  from assms obtain n where n: "lookup root d = Some n" and dir: "is_dir_node n"
    by (auto simp: in_subtree_def path_is_dir_def split: option.splits node.splits)
  from assms obtain r where q: "q = d @ r"
    by (auto simp: in_subtree_def prefix_def)
  from assms n q have "lookup n r \<noteq> None"
    by (simp add: in_subtree_def path_exists_def lookup_append)
  with dir have "d @ r \<in> set (walk_calls (walk d n))"
    by (rule walk_covers)
  with n q show ?thesis by (simp add: os_walk_def)
qed

lemma called_below:
  assumes "q \<in> set (walk_calls (os_walk root d))"
  shows "path_is_dir root d \<and> prefix d q"
proof -
  have "walk_calls [] = []" by (simp add: walk_calls_def)
  with assms obtain n where n: "lookup root d = Some n"
    and q: "q \<in> set (walk_calls (walk d n))"
    by (cases "lookup root d") (auto simp: os_walk_def)
  from q have "walk_calls (walk d n) \<noteq> []" by auto
  then have "is_dir_node n" by (rule walk_calls_nonempty_dir)
  with n have "path_is_dir root d"
    by (cases n) (simp_all add: path_is_dir_def)
  moreover from q have "prefix d q" by (rule walk_calls_below)
  ultimately show ?thesis ..
qed

lemma chown_recursive_stat:
  assumes "chown_recursive env d u g False w = (Return (), w')"
  shows "stat (tree w') q =
     (if q \<in> set (walk_calls (os_walk (tree w) d))
      then map_option (\<lambda>s. (fst s, (u, g))) (stat (tree w) q) else stat (tree w) q)"
proof -
  from assms have "chown_paths env (u, g) (walk_calls (os_walk (tree w) d)) (tree w)
      = (Return (), tree w')"
    by (auto simp: chown_recursive_def split: prod.splits)
  then show ?thesis by (rule chown_paths_stat)
qed

lemma chown_recursive_keeps_kind:
  assumes "chown_recursive env d u g False w = (Return (), w')"
  shows "path_is_dir (tree w') q = path_is_dir (tree w) q"
    and "path_exists (tree w') q = path_exists (tree w) q"
  using chown_recursive_stat [OF assms, of q]
  by (cases "stat (tree w) q"; auto simp: path_is_dir_stat path_exists_stat)+

lemma set_permissions_passes:
  assumes "set_permissions env t False w = (Return (), w')"
  obtains w1 w2 where
    "chown_recursive env (t @ [''volumes'']) WWW_DATA_UID WWW_DATA_GID False w = (Return (), w1)"
    "chown_recursive env (t @ [''volumes'', ''db'']) MYSQL_UID MYSQL_GID False w1 = (Return (), w2)"
    "tree w' = tree w2"
proof -
  from assms have priv: "has_privilege env"
    by (auto simp: set_permissions_def Let_def split: if_splits)
  obtain r1 w1 where p1:
    "chown_recursive env (t @ [''volumes'']) WWW_DATA_UID WWW_DATA_GID False w = (r1, w1)"
    by (cases "chown_recursive env (t @ [''volumes'']) WWW_DATA_UID WWW_DATA_GID False w")
  obtain r2 w2 where p2:
    "chown_recursive env (t @ [''volumes'', ''db'']) MYSQL_UID MYSQL_GID False w1 = (r2, w2)"
    by (cases "chown_recursive env (t @ [''volumes'', ''db'']) MYSQL_UID MYSQL_GID False w1")
  from assms priv p1 p2 have "r1 = Return ()" "r2 = Return ()" "tree w' = tree w2"
    by (auto simp: set_permissions_def and_then_def Let_def split: result.splits)
  with p1 p2 that show ?thesis by blast
qed

text \<open>
  C7.  When a run of the ownership step that is not a dry run completes, that is, when
  \<open>set_permissions\<close> returns, which it only does for a privileged user and when no call of
  \<open>os.chown\<close> raised: every path at or below the database directory \<open>volumes/db\<close> is owned
  by 999:999, and every path at or below the directory \<open>volumes\<close> that is not in the
  database subtree is owned by 33:33.  A subtree is rooted at a directory: when
  \<open>volumes/db\<close> is a regular file there is no database subtree, and the file is a path of
  the volumes subtree.
\<close>

theorem set_permissions_ownership:
  assumes "set_permissions env target_dir False w = (Return (), w')"
  shows "(in_subtree (tree w') (target_dir @ [''volumes'', ''db'']) p
            \<longrightarrow> owner_at (tree w') p = Some (999, 999))
    \<and> (in_subtree (tree w') (target_dir @ [''volumes'']) p
          \<and> \<not> in_subtree (tree w') (target_dir @ [''volumes'', ''db'']) p
            \<longrightarrow> owner_at (tree w') p = Some (33, 33))"
proof -
  let ?vol = "target_dir @ [''volumes'']" and ?db = "target_dir @ [''volumes'', ''db'']"
  from assms obtain w1 w2 where
    p1: "chown_recursive env ?vol WWW_DATA_UID WWW_DATA_GID False w = (Return (), w1)" and
    p2: "chown_recursive env ?db MYSQL_UID MYSQL_GID False w1 = (Return (), w2)" and
    t: "tree w' = tree w2"
    by (rule set_permissions_passes)
  have kind2: "in_subtree (tree w2) d q = in_subtree (tree w1) d q" for d q
    by (simp add: in_subtree_def chown_recursive_keeps_kind [OF p2])
  have kind1: "in_subtree (tree w1) d q = in_subtree (tree w) d q" for d q
    by (simp add: in_subtree_def chown_recursive_keeps_kind [OF p1])
  have s1: "stat (tree w1) p =
     (if p \<in> set (walk_calls (os_walk (tree w) ?vol))
      then map_option (\<lambda>s. (fst s, (WWW_DATA_UID, WWW_DATA_GID))) (stat (tree w) p)
      else stat (tree w) p)"
    using p1 by (rule chown_recursive_stat)
  have s2: "stat (tree w2) p =
     (if p \<in> set (walk_calls (os_walk (tree w1) ?db))
      then map_option (\<lambda>s. (fst s, (MYSQL_UID, MYSQL_GID))) (stat (tree w1) p)
      else stat (tree w1) p)"
    using p2 by (rule chown_recursive_stat)
  show ?thesis
  proof (intro conjI impI)
    assume db: "in_subtree (tree w') ?db p"
    then have in1: "in_subtree (tree w1) ?db p" by (simp add: t kind2)
    then have "p \<in> set (walk_calls (os_walk (tree w1) ?db))"
      by (rule in_subtree_called)
    moreover from in1 have "stat (tree w1) p \<noteq> None"
      by (simp add: in_subtree_def path_exists_stat)
    ultimately show "owner_at (tree w') p = Some (999, 999)"
      using s2 by (auto simp: t owner_at_stat MYSQL_UID_def MYSQL_GID_def)
  next
    assume h: "in_subtree (tree w') ?vol p \<and> \<not> in_subtree (tree w') ?db p"
    then have in0: "in_subtree (tree w) ?vol p" and out1: "\<not> in_subtree (tree w1) ?db p"
      by (simp_all add: t kind2 kind1)
    from in0 have called: "p \<in> set (walk_calls (os_walk (tree w) ?vol))"
      by (rule in_subtree_called)
    from in0 have ex0: "stat (tree w) p \<noteq> None"
      by (simp add: in_subtree_def path_exists_stat)
    have "p \<notin> set (walk_calls (os_walk (tree w1) ?db))"
    proof
      assume "p \<in> set (walk_calls (os_walk (tree w1) ?db))"
      then have "path_is_dir (tree w1) ?db \<and> prefix ?db p" by (rule called_below)
      moreover from in0 have "path_exists (tree w1) p"
        by (simp add: in_subtree_def chown_recursive_keeps_kind [OF p1])
      ultimately have "in_subtree (tree w1) ?db p" by (simp add: in_subtree_def)
      with out1 show False ..
    qed
    with s2 have "stat (tree w2) p = stat (tree w1) p" by simp
    with s1 called ex0 show "owner_at (tree w') p = Some (33, 33)"
      by (auto simp: t owner_at_stat WWW_DATA_UID_def WWW_DATA_GID_def)
  qed
qed

lemma set_permissions_keeps_kind:
  assumes "set_permissions env t False w = (Return (), w')"
  shows "in_subtree (tree w') d q = in_subtree (tree w) d q"
proof -
  from assms obtain w1 w2 where
    p1: "chown_recursive env (t @ [''volumes'']) WWW_DATA_UID WWW_DATA_GID False w = (Return (), w1)" and
    p2: "chown_recursive env (t @ [''volumes'', ''db'']) MYSQL_UID MYSQL_GID False w1 = (Return (), w2)" and
    t: "tree w' = tree w2"
    by (rule set_permissions_passes)
  show ?thesis
    by (simp add: t in_subtree_def chown_recursive_keeps_kind [OF p2]
        chown_recursive_keeps_kind [OF p1])
qed

lemma volumes_site_completes:
  "fst (set_permissions superuser [''demo''] False (start_world volumes_site)) = Return ()"
  by (simp add: set_permissions_def has_privilege_def and_then_def chown_recursive_def
      os_walk_def walk_calls_def volumes_site_def start_world_def dirnames_def filenames_def
      os_chown_def chown_permitted_def superuser_def Let_def log_msg_def
      WWW_DATA_UID_def WWW_DATA_GID_def MYSQL_UID_def MYSQL_GID_def)

theorem set_permissions_ownership_witness:
  "fst (set_permissions superuser [''demo''] False (start_world volumes_site)) = Return ()
   \<and> owner_at (tree (snd (set_permissions superuser [''demo''] False (start_world volumes_site))))
        [''demo'', ''volumes'', ''db'', ''ibdata1''] = Some (999, 999)
   \<and> owner_at (tree (snd (set_permissions superuser [''demo''] False (start_world volumes_site))))
        [''demo'', ''volumes'', ''db''] = Some (999, 999)
   \<and> owner_at (tree (snd (set_permissions superuser [''demo''] False (start_world volumes_site))))
        [''demo'', ''volumes'', ''config'', ''config.inc.php''] = Some (33, 33)
   \<and> owner_at (tree (snd (set_permissions superuser [''demo''] False (start_world volumes_site))))
        [''demo'', ''volumes''] = Some (33, 33)"
proof -
  let ?w = "start_world volumes_site"
  let ?w' = "snd (set_permissions superuser [''demo''] False ?w)"
  have run: "set_permissions superuser [''demo''] False ?w = (Return (), ?w')"
    using volumes_site_completes by (simp add: prod_eq_iff)
  have sub: "in_subtree (tree ?w') d q = in_subtree volumes_site d q" for d q
    using set_permissions_keeps_kind [OF run] by (simp add: start_world_def)
  have db: "in_subtree volumes_site [''demo'', ''volumes'', ''db''] [''demo'', ''volumes'', ''db'', ''ibdata1'']"
    "in_subtree volumes_site [''demo'', ''volumes'', ''db''] [''demo'', ''volumes'', ''db'']"
    by (simp_all add: in_subtree_def path_is_dir_def path_exists_def volumes_site_def)
  have vol: "in_subtree volumes_site [''demo'', ''volumes''] [''demo'', ''volumes'', ''config'', ''config.inc.php'']"
    "in_subtree volumes_site [''demo'', ''volumes''] [''demo'', ''volumes'']"
    by (simp_all add: in_subtree_def path_is_dir_def path_exists_def volumes_site_def)
  have out: "\<not> in_subtree volumes_site [''demo'', ''volumes'', ''db''] [''demo'', ''volumes'', ''config'', ''config.inc.php'']"
    "\<not> in_subtree volumes_site [''demo'', ''volumes'', ''db''] [''demo'', ''volumes'']"
    by (simp_all add: in_subtree_def)
  show ?thesis
    using volumes_site_completes db vol out
      set_permissions_ownership [OF run, of "[''demo'', ''volumes'', ''db'', ''ibdata1'']"]
      set_permissions_ownership [OF run, of "[''demo'', ''volumes'', ''db'']"]
      set_permissions_ownership [OF run, of "[''demo'', ''volumes'', ''config'', ''config.inc.php'']"]
      set_permissions_ownership [OF run, of "[''demo'', ''volumes'']"]
    by (simp add: sub)
qed

subsection \<open>Removing and changing below a path\<close>

lemma map_of_None_iff_fst: "map_of es x = None \<longleftrightarrow> x \<notin> fst ` set es"
  by (rule map_of_eq_None_iff)

lemma entry_delete_absent: "map_of es x = None \<Longrightarrow> entry_delete x es = es"
  by (induction es) (auto simp: entry_delete_def split: if_splits)

lemma map_of_entry_delete: "map_of (entry_delete x es) y = (if y = x then None else map_of es y)"
  by (induction es) (auto simp: entry_delete_def)

lemma entry_delete_entry_modify: "entry_delete x (entry_modify x g es) = entry_delete x es"
  by (induction es) (auto simp: entry_delete_def)

lemma entry_delete_append_new:
  "map_of es x = None \<Longrightarrow> entry_delete x (es @ [(x, v)]) = es"
  using entry_delete_absent [of es x] by (simp add: entry_delete_def)

lemma entry_modify_twice:
  "entry_modify x g (entry_modify x h es) = entry_modify x (\<lambda>v. g (h v)) es"
  by (induction es) auto

lemma entry_modify_cong_first:
  "(\<And>v. map_of es x = Some v \<Longrightarrow> g v = h v) \<Longrightarrow> entry_modify x g es = entry_modify x h es"
  by (induction es) auto

lemma entry_modify_same:
  "(\<And>v. map_of es x = Some v \<Longrightarrow> g v = v) \<Longrightarrow> entry_modify x g es = es"
  by (induction es) auto

lemma entry_modify_absent: "map_of es x = None \<Longrightarrow> entry_modify x g es = es"
  by (rule entry_modify_same) simp

lemma entry_modify_fixed:
  "map_of es x = Some v \<Longrightarrow> g v = v \<Longrightarrow> entry_modify x g es = es"
  by (rule entry_modify_same) simp

lemma remove_at_absent: "lookup X t = None \<Longrightarrow> remove_at t X = X"
proof (induction t arbitrary: X)
  case Nil
  then show ?case by simp
next
  case (Cons x xs)
  show ?case
  proof (cases X)
    case (File c ow)
    then show ?thesis by simp
  next
    case (Dir ow es)
    show ?thesis
    proof (cases "map_of es x")
      case None
      with Dir show ?thesis
        by (simp add: entry_delete_absent entry_modify_absent)
    next
      case (Some child)
      with Cons.prems Dir have below: "lookup child xs = None" by simp
      then have "xs \<noteq> []" by auto
      moreover have "remove_at xs child = child" using below by (rule Cons.IH)
      ultimately show ?thesis using Dir Some
        by (simp add: entry_modify_fixed)
    qed
  qed
qed

lemma lookup_remove_at_same: "t \<noteq> [] \<Longrightarrow> lookup (remove_at t X) t = None"
proof (induction t arbitrary: X)
  case Nil
  then show ?case by simp
next
  case (Cons x xs)
  show ?case
  proof (cases X)
    case (File c ow)
    then show ?thesis by simp
  next
    case (Dir ow es)
    show ?thesis
    proof (cases "xs = []")
      case True
      with Dir show ?thesis by (simp add: map_of_entry_delete)
    next
      case False
      then have "lookup (remove_at xs child) xs = None" for child
        by (rule Cons.IH)
      with Dir False show ?thesis
        by (simp add: map_of_entry_modify split: option.splits)
    qed
  qed
qed

lemma remove_at_modify_below:
  "t \<noteq> [] \<Longrightarrow> remove_at t (modify_at (t @ r) f X) = remove_at t X"
proof (induction t arbitrary: X)
  case Nil
  then show ?case by simp
next
  case (Cons x xs)
  show ?case
  proof (cases X)
    case (File c ow)
    then show ?thesis by simp
  next
    case (Dir ow es)
    show ?thesis
    proof (cases "xs = []")
      case True
      with Dir show ?thesis by (simp add: entry_delete_entry_modify)
    next
      case False
      then have "remove_at xs (modify_at (xs @ r) f child) = remove_at xs child" for child
        by (rule Cons.IH)
      with Dir False show ?thesis
        by (simp add: entry_modify_twice)
    qed
  qed
qed

lemma lookup_modify_at_above:
  "lookup (modify_at (t @ r) f X) t = map_option (modify_at r f) (lookup X t)"
proof (induction t arbitrary: X)
  case Nil
  show ?case by simp
next
  case (Cons x xs)
  show ?case
    by (cases X) (simp_all add: map_of_entry_modify Cons.IH split: option.splits)
qed

lemma is_dir_node_modify_at_Cons: "is_dir_node (modify_at (x # xs) f n) = is_dir_node n"
  by (cases n) simp_all

lemma path_is_dir_node: "path_is_dir X p \<longleftrightarrow> (\<exists>n. lookup X p = Some n \<and> is_dir_node n)"
proof (cases "lookup X p")
  case None
  then show ?thesis by (simp add: path_is_dir_def)
next
  case (Some n)
  then show ?thesis by (cases n) (simp_all add: path_is_dir_def)
qed

lemma path_is_dir_modify_below:
  "r \<noteq> [] \<Longrightarrow> path_is_dir (modify_at (t @ r) f X) t = path_is_dir X t"
  by (cases r) (auto simp: path_is_dir_node lookup_modify_at_above is_dir_node_modify_at_Cons)

lemma lookup_remove_at_apart:
  "\<not> prefix t p \<Longrightarrow> \<not> prefix p t \<Longrightarrow> lookup (remove_at t X) p = lookup X p"
proof (induction t arbitrary: p X)
  case Nil
  then show ?case by simp
next
  case (Cons x xs)
  from Cons.prems obtain y ys where p: "p = y # ys"
    by (cases p) auto
  show ?case
  proof (cases X)
    case (File c ow)
    then show ?thesis by simp
  next
    case (Dir ow es)
    show ?thesis
    proof (cases "y = x")
      case False
      with Dir p show ?thesis
        by (simp add: map_of_entry_delete map_of_entry_modify)
    next
      case True
      with Cons.prems p have apart: "\<not> prefix xs ys" "\<not> prefix ys xs" by simp_all
      then have "xs \<noteq> []" by auto
      moreover have "lookup (remove_at xs child) ys = lookup child ys" for child
        using apart by (rule Cons.IH)
      ultimately show ?thesis using Dir p True
        by (simp add: map_of_entry_modify split: option.splits)
    qed
  qed
qed

subsection \<open>Copying into a free place\<close>

lemma path_is_dir_Nil: "path_is_dir X [] \<longleftrightarrow> is_dir_node X"
  by (cases X) (simp_all add: path_is_dir_def)

lemma path_is_dir_Cons:
  "path_is_dir (Dir ow es) (x # xs) \<longleftrightarrow> (\<exists>child. map_of es x = Some child \<and> path_is_dir child xs)"
  by (simp add: path_is_dir_def split: option.splits)

lemma path_is_dir_File: "\<not> path_is_dir (File c ow) (x # xs)"
  by (simp add: path_is_dir_def)

lemma map_of_append_new: "map_of es x = None \<Longrightarrow> map_of (es @ [(x, v)]) x = Some v"
  by (simp add: map_add_def)

lemma put_new_then_remove:
  assumes "t \<noteq> []" and "path_is_dir X (butlast t)" and "lookup X t = None"
  shows "\<exists>Y. put_new me t N X = Some Y \<and> remove_at t Y = X \<and> lookup Y t = Some N"
  using assms
proof (induction t arbitrary: X)
  case Nil
  then show ?case by simp
next
  case (Cons x xs)
  show ?case
  proof (cases "xs = []")
    case True
    with Cons.prems obtain ow es where X: "X = Dir ow es"
      by (cases X) (simp_all add: path_is_dir_Nil)
    with Cons.prems True have "map_of es x = None"
      by (simp split: option.splits)
    with X True show ?thesis
      by (simp add: entry_put_def entry_delete_append_new map_of_append_new del: map_of_append)
  next
    case False
    then have bl: "butlast (x # xs) = x # butlast xs" by simp
    from Cons.prems(2) obtain ow es where X: "X = Dir ow es"
      unfolding bl by (cases X) (simp_all add: path_is_dir_File)
    with Cons.prems(2) obtain child where child: "map_of es x = Some child"
      and pd: "path_is_dir child (butlast xs)"
      unfolding bl by (auto simp: path_is_dir_Cons)
    from Cons.prems(3) X child have free: "lookup child xs = None" by simp
    from Cons.IH [OF False pd free]
    obtain Y where Y: "put_new me xs N child = Some Y" "remove_at xs Y = child"
      "lookup Y xs = Some N"
      by blast
    with X child False show ?thesis
      by (simp add: entry_modify_twice entry_modify_fixed map_of_entry_modify)
  qed
qed

lemma parent_dir_after_remove:
  "path_is_dir X t \<Longrightarrow> t \<noteq> [] \<Longrightarrow> path_is_dir (remove_at t X) (butlast t)"
proof (induction t arbitrary: X)
  case Nil
  then show ?case by simp
next
  case (Cons x xs)
  from Cons.prems obtain ow es where X: "X = Dir ow es"
    by (cases X) (simp_all add: path_is_dir_File)
  show ?case
  proof (cases "xs = []")
    case True
    with X show ?thesis by (simp add: path_is_dir_Nil)
  next
    case False
    from Cons.prems X obtain child where child: "map_of es x = Some child"
      and pd: "path_is_dir child xs"
      by (auto simp: path_is_dir_Cons)
    from Cons.IH [OF pd False] have "path_is_dir (remove_at xs child) (butlast xs)" .
    with X False child show ?thesis
      by (simp add: path_is_dir_Cons map_of_entry_modify)
  qed
qed

lemma is_dir_node_fresh_copy: "is_dir_node (fresh_copy me n) = is_dir_node n"
  by (cases n) simp_all

subsection \<open>Steps that depend on the tree alone\<close>

lemma tree_determinedI:
  "(\<And>w v. tree w = tree v \<Longrightarrow> fst (f w) = fst (f v) \<and> tree (snd (f w)) = tree (snd (f v)))
   \<Longrightarrow> tree_determined f"
  unfolding tree_determined_def by blast

lemma tree_determinedD:
  "tree_determined f \<Longrightarrow> tree w = tree v \<Longrightarrow>
   fst (f w) = fst (f v) \<and> tree (snd (f w)) = tree (snd (f v))"
  unfolding tree_determined_def by blast

lemma tree_determined_and_then:
  assumes f: "tree_determined f" and g: "tree_determined g"
  shows "tree_determined (and_then f g)"
proof (rule tree_determinedI)
  fix w v :: world
  assume wv: "tree w = tree v"
  obtain r w' where fw: "f w = (r, w')" by (cases "f w")
  obtain s v' where fv: "f v = (s, v')" by (cases "f v")
  from tree_determinedD [OF f wv] fw fv have rs: "s = r" and t': "tree w' = tree v'"
    by simp_all
  show "fst (and_then f g w) = fst (and_then f g v)
      \<and> tree (snd (and_then f g w)) = tree (snd (and_then f g v))"
  proof (cases r)
    case (Return u)
    with fw fv rs tree_determinedD [OF g t'] show ?thesis
      by (simp add: and_then_def)
  next
    case (SysExit n)
    with fw fv rs t' show ?thesis by (simp add: and_then_def)
  next
    case (Raise e)
    with fw fv rs t' show ?thesis by (simp add: and_then_def)
  qed
qed

lemma tree_determined_log: "tree_determined (\<lambda>w. (Return u, log_msg lv msg w))"
  by (simp add: tree_determined_def)

lemma tree_determined_summary: "tree_determined (\<lambda>w. (Return u, print_summary d t w))"
  by (simp add: tree_determined_def)

lemma tree_determined_copy_template: "tree_determined (copy_template env s t dry)"
proof (rule tree_determinedI)
  fix w v :: world
  assume eq: "tree w = tree v"
  show "fst (copy_template env s t dry w) = fst (copy_template env s t dry v)
      \<and> tree (snd (copy_template env s t dry w)) = tree (snd (copy_template env s t dry v))"
    using eq
    by (cases "copytree (euid env, egid env) s t (tree v)") (simp_all add: copy_template_def)
qed

lemma tree_determined_replace_in_file: "tree_determined (replace_in_file env p rs dry)"
proof (rule tree_determinedI)
  fix w v :: world
  assume eq: "tree w = tree v"
  show "fst (replace_in_file env p rs dry w) = fst (replace_in_file env p rs dry v)
      \<and> tree (snd (replace_in_file env p rs dry w)) = tree (snd (replace_in_file env p rs dry v))"
  proof (cases "read_text p (tree v)")
    case (Inl e)
    with eq show ?thesis by (simp add: replace_in_file_def)
  next
    case (Inr body)
    obtain body' n where ar: "apply_replacements rs body 0 = (body', n)"
      by (cases "apply_replacements rs body 0")
    show ?thesis
      using eq Inr ar
      by (cases "write_text (euid env, egid env) p body' (tree v)")
         (simp_all add: replace_in_file_def split: option.splits)
  qed
qed

lemma tree_determined_chown_recursive: "tree_determined (chown_recursive env p u g dry)"
proof (rule tree_determinedI)
  fix w v :: world
  assume eq: "tree w = tree v"
  obtain r X where cp:
    "chown_paths env (u, g) (walk_calls (os_walk (tree v) p)) (tree v) = (r, X)"
    by (cases "chown_paths env (u, g) (walk_calls (os_walk (tree v) p)) (tree v)")
  show "fst (chown_recursive env p u g dry w) = fst (chown_recursive env p u g dry v)
      \<and> tree (snd (chown_recursive env p u g dry w)) = tree (snd (chown_recursive env p u g dry v))"
    using eq cp by (simp add: chown_recursive_def)
qed

lemma set_permissions_privileged:
  "has_privilege env \<Longrightarrow>
   set_permissions env t dry =
     and_then (chown_recursive env (t @ [''volumes'']) WWW_DATA_UID WWW_DATA_GID dry)
       (and_then (chown_recursive env (t @ [''volumes'', ''db'']) MYSQL_UID MYSQL_GID dry)
          (\<lambda>w'. (Return (), if \<not> dry then log_msg INFO ''Permissions set'' w' else w')))"
  by (rule ext) (simp add: set_permissions_def Let_def)

lemma set_permissions_refused:
  "\<not> has_privilege env \<Longrightarrow>
   fst (set_permissions env t dry w) = SysExit EXIT_PERMISSION_ERROR
   \<and> tree (snd (set_permissions env t dry w)) = tree w"
  by (simp add: set_permissions_def Let_def)

lemma tree_determined_set_permissions: "tree_determined (set_permissions env t dry)"
proof (cases "has_privilege env")
  case True
  have "tree_determined (\<lambda>w'. (Return (), if \<not> dry then log_msg INFO ''Permissions set'' w' else w'))"
    by (rule tree_determinedI) simp
  then show ?thesis
    unfolding set_permissions_privileged [OF True]
    by (intro tree_determined_and_then tree_determined_chown_recursive)
next
  case False
  show ?thesis
    by (rule tree_determinedI) (simp add: set_permissions_refused [OF False])
qed

lemma tree_determined_configure_and_own: "tree_determined (configure_and_own env d l m s)"
  unfolding configure_and_own_def configure_env_def configure_config_inc_def
    configure_compose_def
  by (intro tree_determined_and_then tree_determined_replace_in_file
      tree_determined_set_permissions tree_determined_summary)

lemma tree_determined_after_collision: "tree_determined (after_collision env d l m s)"
  unfolding after_collision_def
  by (intro tree_determined_and_then tree_determined_log tree_determined_copy_template
      tree_determined_configure_and_own)

subsection \<open>Steps that stay below the instance directory\<close>

lemma confinedI:
  "(\<And>w. remove_at t (tree (snd (f w))) = remove_at t (tree w)
         \<and> path_is_dir (tree (snd (f w))) t = path_is_dir (tree w) t)
   \<Longrightarrow> confined t f"
  unfolding confined_def by blast

lemma confinedD:
  "confined t f \<Longrightarrow> remove_at t (tree (snd (f w))) = remove_at t (tree w)
         \<and> path_is_dir (tree (snd (f w))) t = path_is_dir (tree w) t"
  unfolding confined_def by blast

lemma confined_and_then:
  assumes f: "confined t f" and g: "confined t g"
  shows "confined t (and_then f g)"
proof (rule confinedI)
  fix w :: world
  obtain r w' where fw: "f w = (r, w')" by (cases "f w")
  from confinedD [OF f, of w] fw
  have w': "remove_at t (tree w') = remove_at t (tree w)"
    "path_is_dir (tree w') t = path_is_dir (tree w) t"
    by simp_all
  show "remove_at t (tree (snd (and_then f g w))) = remove_at t (tree w)
      \<and> path_is_dir (tree (snd (and_then f g w))) t = path_is_dir (tree w) t"
  proof (cases r)
    case (Return u)
    with fw w' confinedD [OF g, of w'] show ?thesis
      by (simp add: and_then_def)
  next
    case (SysExit n)
    with fw w' show ?thesis by (simp add: and_then_def)
  next
    case (Raise e)
    with fw w' show ?thesis by (simp add: and_then_def)
  qed
qed

lemma confined_summary: "confined t (\<lambda>w. (Return u, print_summary d s w))"
  by (simp add: confined_def)

lemma modify_at_twice: "modify_at p f (modify_at p g X) = modify_at p (\<lambda>n. f (g n)) X"
proof (induction p arbitrary: X)
  case Nil
  show ?case by simp
next
  case (Cons x xs)
  show ?case
    by (cases X) (simp_all add: entry_modify_twice Cons.IH)
qed

lemma write_text_existing_file:
  "lookup X p = Some (File c ow) \<Longrightarrow>
   write_text me p cps X =
     (case utf8_encode cps of
        None \<Rightarrow> (Some UnicodeEncodeError, modify_at p (\<lambda>old. File [] ow) X)
      | Some b \<Rightarrow> (None, modify_at p (\<lambda>old. File b ow) X))"
  by (simp add: write_text_def open_for_writing_def modify_at_twice set_contents_def
      split: option.splits)

lemma confined_replace_in_file:
  assumes "t \<noteq> []" and "r \<noteq> []"
  shows "confined t (replace_in_file env (t @ r) rs False)"
proof (rule confinedI)
  fix w :: world
  show "remove_at t (tree (snd (replace_in_file env (t @ r) rs False w))) = remove_at t (tree w)
      \<and> path_is_dir (tree (snd (replace_in_file env (t @ r) rs False w))) t
          = path_is_dir (tree w) t"
  proof (cases "lookup (tree w) (t @ r)")
    case None
    then show ?thesis by (simp add: replace_in_file_def path_exists_def)
  next
    case (Some n)
    show ?thesis
    proof (cases n)
      case (Dir ow es)
      with Some show ?thesis
        by (simp add: replace_in_file_def path_exists_def read_text_def)
    next
      case (File c ow)
      with Some have written: "write_text (euid env, egid env) (t @ r) body (tree w)
          = (case utf8_encode body of
               None \<Rightarrow> (Some UnicodeEncodeError, modify_at (t @ r) (\<lambda>old. File [] ow) (tree w))
             | Some b \<Rightarrow> (None, modify_at (t @ r) (\<lambda>old. File b ow) (tree w)))" for body
        by (simp add: write_text_existing_file)
      from Some File assms show ?thesis
        by (simp add: replace_in_file_def path_exists_def read_text_def written
            remove_at_modify_below path_is_dir_modify_below split: prod.splits option.splits)
    qed
  qed
qed

lemma chown_paths_confined:
  assumes "t \<noteq> []" and "\<forall>q \<in> set ps. \<exists>r. r \<noteq> [] \<and> q = t @ r"
  shows "remove_at t (snd (chown_paths env ow ps X)) = remove_at t X
    \<and> path_is_dir (snd (chown_paths env ow ps X)) t = path_is_dir X t"
  using assms(2)
proof (induction ps arbitrary: X)
  case Nil
  show ?case by simp
next
  case (Cons q ps)
  from Cons.prems obtain r where r: "r \<noteq> []" "q = t @ r" by auto
  show ?case
  proof (cases "os_chown env ow q X")
    case (Inl e)
    then show ?thesis by simp
  next
    case (Inr X')
    then have X': "X' = modify_at (t @ r) (set_owner ow) X"
      using r by (auto simp: os_chown_def split: option.splits if_splits)
    have "remove_at t X' = remove_at t X" "path_is_dir X' t = path_is_dir X t"
      unfolding X' using assms(1) r(1)
      by (simp_all add: remove_at_modify_below path_is_dir_modify_below)
    moreover have "remove_at t (snd (chown_paths env ow ps X')) = remove_at t X'
      \<and> path_is_dir (snd (chown_paths env ow ps X')) t = path_is_dir X' t"
      using Cons.prems by (intro Cons.IH) simp
    ultimately show ?thesis using Inr by simp
  qed
qed

lemma confined_chown_recursive:
  assumes "t \<noteq> []" and "r \<noteq> []"
  shows "confined t (chown_recursive env (t @ r) u g False)"
proof (rule confinedI)
  fix w :: world
  have "\<forall>q \<in> set (walk_calls (os_walk (tree w) (t @ r))). \<exists>r'. r' \<noteq> [] \<and> q = t @ r'"
  proof
    fix q assume "q \<in> set (walk_calls (os_walk (tree w) (t @ r)))"
    then have "prefix (t @ r) q" using called_below by blast
    then obtain z where "q = t @ (r @ z)" by (auto simp: prefix_def)
    with assms(2) show "\<exists>r'. r' \<noteq> [] \<and> q = t @ r'" by blast
  qed
  from chown_paths_confined [OF assms(1) this, of env "(u, g)" "tree w"]
  show "remove_at t (tree (snd (chown_recursive env (t @ r) u g False w))) = remove_at t (tree w)
      \<and> path_is_dir (tree (snd (chown_recursive env (t @ r) u g False w))) t
          = path_is_dir (tree w) t"
    by (auto simp: chown_recursive_def split: prod.splits)
qed

lemma confined_set_permissions:
  assumes "t \<noteq> []"
  shows "confined t (set_permissions env t False)"
proof (cases "has_privilege env")
  case True
  have "confined t (\<lambda>w'. (Return (), if \<not> False then log_msg INFO ''Permissions set'' w' else w'))"
    by (rule confinedI) simp
  then show ?thesis
    unfolding set_permissions_privileged [OF True]
    using assms
    by (intro confined_and_then confined_chown_recursive) simp_all
next
  case False
  show ?thesis
    by (rule confinedI) (simp add: set_permissions_refused [OF False])
qed

lemma confined_configure_and_own:
  assumes "path_parts s \<noteq> []"
  shows "confined (path_parts s) (configure_and_own env d l m s)"
  unfolding configure_and_own_def configure_env_def configure_config_inc_def
    configure_compose_def
  using assms
  by (intro confined_and_then confined_replace_in_file confined_set_permissions
      confined_summary) simp_all

subsection \<open>A forced run rebuilds the instance directory\<close>

lemma handle_existing_target_forced:
  assumes "path_is_dir (tree w) t"
  shows "fst (handle_existing_target env t True False ev w) = Return ()
    \<and> tree (snd (handle_existing_target env t True False ev w)) = remove_at t (tree w)"
proof -
  from assms obtain ow es where "lookup (tree w) t = Some (Dir ow es)"
    by (auto simp: path_is_dir_def split: option.splits node.splits)
  then show ?thesis
    by (simp add: handle_existing_target_def path_exists_def rmtree_def Let_def)
qed

lemma after_collision_rebuilds:
  assumes t: "path_parts s \<noteq> []"
    and free: "lookup (tree w) (path_parts s) = None"
    and parent: "path_is_dir (tree w) (butlast (path_parts s))"
    and template: "path_is_dir (tree w) [TEMPLATE_DIR]"
  shows "remove_at (path_parts s) (tree (snd (after_collision env d l m s w))) = tree w
    \<and> path_is_dir (tree (snd (after_collision env d l m s w))) (path_parts s)"
proof -
  let ?t = "path_parts s"
  let ?log = "\<lambda>w. (Return (), log_msg INFO (''Deploying '' @ d @ '' to ''
                                   @ path_name env ?t @ '' ...'') w)"
  let ?w1 = "snd (?log w)"
  have w1: "tree ?w1 = tree w" by simp
  from template obtain ow es where tmpl: "lookup (tree w) [TEMPLATE_DIR] = Some (Dir ow es)"
    by (auto simp: path_is_dir_def split: option.splits node.splits)
  from put_new_then_remove [OF t parent free,
      of "(euid env, egid env)" "fresh_copy (euid env, egid env) (Dir ow es)"]
  obtain Y where Y: "put_new (euid env, egid env) ?t
        (fresh_copy (euid env, egid env) (Dir ow es)) (tree w) = Some Y"
    and restored: "remove_at ?t Y = tree w"
    and placed: "lookup Y ?t = Some (fresh_copy (euid env, egid env) (Dir ow es))"
    by blast
  from placed have dirY: "path_is_dir Y ?t"
    by (simp add: path_is_dir_node)
  let ?copy = "copy_template env [TEMPLATE_DIR] ?t False"
  have copy: "fst (?copy ?w1) = Return ()" "tree (snd (?copy ?w1)) = Y"
    using tmpl free Y by (simp_all add: copy_template_def copytree_def)
  let ?w2 = "snd (?copy ?w1)"
  have conf: "confined ?t (configure_and_own env d l m s)"
    using t by (rule confined_configure_and_own)
  have "fst (?log w) = Return ()" by simp
  then have s1: "and_then ?log (and_then ?copy (configure_and_own env d l m s)) w
      = and_then ?copy (configure_and_own env d l m s) ?w1"
    by (rule and_then_Return [where f = ?log])
  have s2: "and_then ?copy (configure_and_own env d l m s) ?w1
      = configure_and_own env d l m s ?w2"
    using copy(1) by (rule and_then_Return [where f = ?copy])
  have run: "after_collision env d l m s w = configure_and_own env d l m s ?w2"
    unfolding after_collision_def by (simp only: s1 s2)
  from confinedD [OF conf, of ?w2] copy(2) restored dirY
  show ?thesis by (simp add: run)
qed

lemma forced_run_on_instance:
  assumes lv: "arg_log_level a \<in> set LOG_LEVEL_CHOICES"
    and frc: "arg_force a" and nodry: "\<not> arg_dry_run a"
    and sub: "extract_subdomain (arg_domain a) = Inr sub"
    and inst: "path_is_dir R (path_parts sub)"
    and template: "path_is_dir R [TEMPLATE_DIR]"
  shows "\<exists>h. tree h = remove_at (path_parts sub) R
    \<and> main a env ev (start_world R) =
        after_collision env (arg_domain a) (arg_locale a)
          (email_or_default (arg_email a) (arg_domain a)) sub h"
proof -
  from main_valid_command_line [OF lv sub, of "start_world R" env ev]
  obtain w1 where w1: "tree w1 = R"
    and m: "main a env ev (start_world R) =
        deploy_steps env ev (arg_domain a) (arg_locale a)
          (email_or_default (arg_email a) (arg_domain a)) sub True False w1"
    using frc nodry by (auto simp: start_world_def)
  let ?v = "validate_environment env [TEMPLATE_DIR]"
  let ?h = "handle_existing_target env (path_parts sub) True False ev"
  have v: "fst (?v w1) = Return ()" and vt: "tree (snd (?v w1)) = R"
    using template w1 by (simp_all add: validate_environment_passes validate_environment_frame)
  from inst vt have "path_is_dir (tree (snd (?v w1))) (path_parts sub)" by simp
  from handle_existing_target_forced [OF this, of env ev] vt
  have h: "fst (?h (snd (?v w1))) = Return ()"
    and ht: "tree (snd (?h (snd (?v w1)))) = remove_at (path_parts sub) R"
    by simp_all
  let ?ac = "after_collision env (arg_domain a) (arg_locale a)
        (email_or_default (arg_email a) (arg_domain a)) sub"
  have s1: "and_then ?v (and_then ?h ?ac) w1 = and_then ?h ?ac (snd (?v w1))"
    using v by (rule and_then_Return [where f = ?v])
  have s2: "and_then ?h ?ac (snd (?v w1)) = ?ac (snd (?h (snd (?v w1))))"
    using h by (rule and_then_Return [where f = ?h])
  have "main a env ev (start_world R) = ?ac (snd (?h (snd (?v w1))))"
    unfolding m deploy_steps_split by (simp only: s1 s2)
  with ht show ?thesis by blast
qed

lemma deploy_from_main:
  "fst (deploy a env ev R) =
     (case fst (main a env ev (start_world R)) of
        Return status \<Rightarrow> status | SysExit n \<Rightarrow> n | Raise e \<Rightarrow> EXIT_USER_ERROR)"
  "tree (snd (deploy a env ev R)) = tree (snd (main a env ev (start_world R)))"
  by (cases "main a env ev (start_world R)"; simp add: deploy_def split: result.splits)+

subsection \<open>The superuser's passes complete\<close>

text \<open>
  The ownership property above is about runs in which \<open>set_permissions\<close> returns.  For the
  superuser on a well-formed tree it always does: every path the walk lists exists, and no
  call of \<open>os.chown\<close> is refused.
\<close>

lemma wf_node_child:
  "wf_node (Dir ow es) \<Longrightarrow> map_of es x = Some child \<Longrightarrow> wf_node child"
  by (auto dest: map_of_SomeD)

lemma wf_node_lookup: "wf_node root \<Longrightarrow> lookup root p = Some n \<Longrightarrow> wf_node n"
proof (induction p arbitrary: root)
  case Nil
  then show ?case by simp
next
  case (Cons x xs)
  from Cons.prems obtain ow es child where root: "root = Dir ow es"
    and child: "map_of es x = Some child" and below: "lookup child xs = Some n"
    by (cases root) (auto split: option.splits)
  from Cons.prems(1) root child have "wf_node child"
    by (auto dest: wf_node_child)
  then show ?case using below by (rule Cons.IH)
qed

lemma walk_calls_exist:
  "wf_node n \<Longrightarrow> q \<in> set (walk_calls (walk p n)) \<Longrightarrow> \<exists>r. q = p @ r \<and> lookup n r \<noteq> None"
proof (induction p n arbitrary: q rule: walk.induct)
  case (1 p c ow)
  then show ?case by (simp add: walk_calls_def)
next
  case (2 p ow es)
  from "2.prems"(2) consider "q = p" | name where "name \<in> fst ` set es" "q = p @ [name]"
    | e where "e \<in> set es" "is_dir_node (snd e)" "q \<in> set (walk_calls (walk (p @ [fst e]) (snd e)))"
    unfolding set_walk_calls_Dir by auto
  then show ?case
  proof cases
    case 1
    then show ?thesis by simp
  next
    case 2
    then have "map_of es name \<noteq> None"
      by (simp add: map_of_eq_None_iff)
    with 2 have "q = p @ [name] \<and> lookup (Dir ow es) [name] \<noteq> None"
      by (auto split: option.splits)
    then show ?thesis by blast
  next
    case 3
    from "2.prems"(1) 3(1) have wf: "wf_node (snd e)" by simp
    from "2.IH" [of e q] 3 wf
    obtain r where r: "q = (p @ [fst e]) @ r" "lookup (snd e) r \<noteq> None" by auto
    from "2.prems"(1) 3(1) have "map_of es (fst e) = Some (snd e)"
      by (cases e) (simp add: map_of_is_SomeI)
    with r have "q = p @ (fst e # r) \<and> lookup (Dir ow es) (fst e # r) \<noteq> None"
      by simp
    then show ?thesis by blast
  qed
qed

lemma os_walk_calls_exist:
  assumes "wf_node root" and "q \<in> set (walk_calls (os_walk root d))"
  shows "path_exists root q"
proof -
  have "walk_calls [] = []" by (simp add: walk_calls_def)
  with assms(2) obtain n where n: "lookup root d = Some n"
    and q: "q \<in> set (walk_calls (walk d n))"
    by (cases "lookup root d") (auto simp: os_walk_def)
  from assms(1) n have "wf_node n" by (rule wf_node_lookup)
  from walk_calls_exist [OF this q] obtain r where "q = d @ r" "lookup n r \<noteq> None"
    by blast
  with n show ?thesis by (simp add: path_exists_def lookup_append)
qed

lemma wf_node_set_owner: "wf_node (set_owner ow n) = wf_node n"
  by (cases n) simp_all

lemma map_fst_entry_modify: "map fst (entry_modify x g es) = map fst es"
  by (induction es) auto

lemma set_entry_modify:
  "e \<in> set (entry_modify x g es) \<Longrightarrow> e \<in> set es \<or> (\<exists>v. (x, v) \<in> set es \<and> e = (x, g v))"
  by (induction es) (auto split: if_splits)

lemma wf_node_modify_at:
  "(\<And>n. wf_node n \<Longrightarrow> wf_node (f n)) \<Longrightarrow> wf_node root \<Longrightarrow> wf_node (modify_at p f root)"
proof (induction p arbitrary: root)
  case Nil
  then show ?case by simp
next
  case (Cons x xs)
  show ?case
  proof (cases root)
    case (File c ow)
    then show ?thesis by simp
  next
    case (Dir ow es)
    have "wf_node (snd e)" if "e \<in> set (entry_modify x (modify_at xs f) es)" for e
    proof -
      from set_entry_modify [OF that] consider "e \<in> set es"
        | v where "(x, v) \<in> set es" "e = (x, modify_at xs f v)"
        by blast
      then show ?thesis
      proof cases
        case 1
        with Cons.prems(2) Dir show ?thesis by simp
      next
        case 2
        with Cons.prems(2) Dir have "wf_node v" by auto
        with Cons.prems(1) have "wf_node (modify_at xs f v)" by (intro Cons.IH)
        with 2 show ?thesis by simp
      qed
    qed
    with Cons.prems(2) Dir show ?thesis
      by (simp add: map_fst_entry_modify)
  qed
qed

lemma chown_paths_superuser:
  assumes "euid env = 0"
  shows "wf_node root \<Longrightarrow> \<forall>q \<in> set ps. path_exists root q \<Longrightarrow>
    fst (chown_paths env ow ps root) = Return () \<and> wf_node (snd (chown_paths env ow ps root))"
proof (induction ps arbitrary: root)
  case Nil
  then show ?case by simp
next
  case (Cons p ps)
  from Cons.prems(2) obtain n where n: "lookup root p = Some n"
    by (auto simp: path_exists_def)
  let ?next = "modify_at p (set_owner ow) root"
  from n assms have one: "os_chown env ow p root = Inr ?next"
    by (simp add: os_chown_def chown_permitted_def)
  have wf: "wf_node ?next"
    using Cons.prems(1) by (intro wf_node_modify_at) (simp_all add: wf_node_set_owner)
  have "\<forall>q \<in> set ps. path_exists ?next q"
    using Cons.prems(2) by (auto simp: path_exists_stat stat_chown)
  from Cons.IH [OF wf this] one show ?case by simp
qed

lemma chown_recursive_superuser:
  assumes "euid env = 0" and "wf_node (tree w)"
  shows "fst (chown_recursive env d u g False w) = Return ()
    \<and> wf_node (tree (snd (chown_recursive env d u g False w)))"
proof -
  have "\<forall>q \<in> set (walk_calls (os_walk (tree w) d)). path_exists (tree w) q"
    using assms(2) by (auto intro: os_walk_calls_exist)
  from chown_paths_superuser [OF assms(1) assms(2) this, of "(u, g)"]
  show ?thesis
    by (auto simp: chown_recursive_def split: prod.splits)
qed

lemma has_privilege_euid_0: "euid env = 0 \<Longrightarrow> has_privilege env"
  by (simp add: has_privilege_def)

lemma set_permissions_superuser:
  assumes "euid env = 0" and "wf_node (tree w)"
  shows "fst (set_permissions env t False w) = Return ()"
proof -
  let ?p1 = "chown_recursive env (t @ [''volumes'']) WWW_DATA_UID WWW_DATA_GID False"
  let ?p2 = "chown_recursive env (t @ [''volumes'', ''db'']) MYSQL_UID MYSQL_GID False"
  let ?fin = "\<lambda>w'. (Return (), if \<not> False then log_msg INFO ''Permissions set'' w' else w')"
  from chown_recursive_superuser [OF assms]
  have r1: "fst (?p1 w) = Return ()" and wf1: "wf_node (tree (snd (?p1 w)))" by simp_all
  from chown_recursive_superuser [OF assms(1) wf1]
  have r2: "fst (?p2 (snd (?p1 w))) = Return ()" by simp
  have s1: "and_then ?p1 (and_then ?p2 ?fin) w = and_then ?p2 ?fin (snd (?p1 w))"
    using r1 by (rule and_then_Return [where f = ?p1])
  have s2: "and_then ?p2 ?fin (snd (?p1 w)) = ?fin (snd (?p2 (snd (?p1 w))))"
    using r2 by (rule and_then_Return [where f = ?p2])
  show ?thesis
    unfolding set_permissions_privileged [OF has_privilege_euid_0 [OF assms(1)]]
    by (simp only: s1 s2 fst_conv)
qed

subsection \<open>Entries after single changes\<close>

lemma entry_of_set_owner: "entry_of (set_owner ow n) = entry_of n"
  by (cases n) simp_all

lemma lookup_set_owner_Cons: "lookup (set_owner ow n) (y # ys) = lookup n (y # ys)"
  by (cases n) simp_all

lemma entry_at_Dir_Cons:
  "entry_at (Dir ow es) (y # ys) =
     (case map_of es y of None \<Rightarrow> None | Some child \<Rightarrow> entry_at child ys)"
  by (simp add: entry_at_def split: option.splits)

lemma entry_at_File_Cons: "entry_at (File c ow) (y # ys) = None"
  by (simp add: entry_at_def)

lemma entry_at_chown: "entry_at (modify_at p (set_owner ow) X) q = entry_at X q"
proof (induction p arbitrary: X q)
  case Nil
  show ?case
    by (cases q) (simp_all add: entry_at_def entry_of_set_owner lookup_set_owner_Cons)
next
  case (Cons x xs)
  note IH = Cons.IH
  show ?case
  proof (cases X)
    case (File c fo)
    then show ?thesis by simp
  next
    case (Dir d es)
    show ?thesis
    proof (cases q)
      case Nil
      with Dir show ?thesis by (simp add: entry_at_def)
    next
      case (Cons y ys)
      with Dir show ?thesis
        by (simp add: entry_at_Dir_Cons map_of_entry_modify IH split: option.splits)
    qed
  qed
qed

lemma entry_at_write:
  "lookup X p = Some (File c ow) \<Longrightarrow>
   entry_at (modify_at p (\<lambda>old. File b ow') X) q =
     (if q = p then Some (Regular b) else entry_at X q)"
proof (induction p arbitrary: X q)
  case Nil
  then show ?case
    by (cases q) (simp_all add: entry_at_def)
next
  case (Cons x xs)
  note IH = Cons.IH
  from Cons.prems obtain d es child where X: "X = Dir d es"
    and child: "map_of es x = Some child" and below: "lookup child xs = Some (File c ow)"
    by (cases X) (auto split: option.splits)
  show ?case
  proof (cases q)
    case Nil
    with X show ?thesis by (simp add: entry_at_def)
  next
    case (Cons y ys)
    with X child show ?thesis
      by (simp add: entry_at_Dir_Cons map_of_entry_modify IH [OF below])
  qed
qed

lemma map_of_map_snd:
  "map_of (map (\<lambda>e. (fst e, f (snd e))) es) x = map_option f (map_of es x)"
  by (induction es) auto

lemma entry_at_fresh_copy: "entry_at (fresh_copy me n) r = entry_at n r"
proof (induction r arbitrary: n)
  case Nil
  show ?case by (cases n) (simp_all add: entry_at_def)
next
  case (Cons x xs)
  show ?case
    by (cases n) (simp_all add: entry_at_Dir_Cons entry_at_File_Cons map_of_map_snd Cons.IH
        split: option.splits)
qed

lemma entry_at_below:
  "lookup X t = Some N \<Longrightarrow> entry_at X (t @ r) = entry_at N r"
  by (simp add: entry_at_def lookup_append)

lemma chown_paths_entry_at: "entry_at (snd (chown_paths env ow ps X)) q = entry_at X q"
proof (induction ps arbitrary: X)
  case Nil
  show ?case by simp
next
  case (Cons p ps)
  show ?case
  proof (cases "os_chown env ow p X")
    case (Inl e)
    then show ?thesis by simp
  next
    case (Inr X')
    then have "X' = modify_at p (set_owner ow) X"
      by (auto simp: os_chown_def split: option.splits if_splits)
    with Inr Cons.IH [of X'] show ?thesis
      by (simp add: entry_at_chown)
  qed
qed

lemma chown_recursive_entry_at:
  "entry_at (tree (snd (chown_recursive env d u g dry w))) q = entry_at (tree w) q"
  using chown_paths_entry_at [of env "(u, g)" "walk_calls (os_walk (tree w) d)" "tree w" q]
  by (cases "chown_paths env (u, g) (walk_calls (os_walk (tree w) d)) (tree w)")
     (simp add: chown_recursive_def)

lemma and_then_keeps:
  assumes "\<And>w. P (tree (snd (f w))) = P (tree w)" and "\<And>w. P (tree (snd (g w))) = P (tree w)"
  shows "P (tree (snd (and_then f g w))) = P (tree w)"
proof (cases "f w")
  case (Pair r w')
  with assms(1) [of w] have "P (tree w') = P (tree w)" by simp
  with Pair assms(2) [of w'] show ?thesis
    by (cases r) (simp_all add: and_then_def)
qed

lemma set_permissions_entry_at:
  "entry_at (tree (snd (set_permissions env t dry w))) q = entry_at (tree w) q"
proof (cases "has_privilege env")
  case False
  then show ?thesis by (simp add: set_permissions_def)
next
  case True
  show ?thesis
    unfolding set_permissions_privileged [OF True]
    by (intro and_then_keeps [where P = "\<lambda>X. entry_at X q"] chown_recursive_entry_at) simp
qed

subsection \<open>Placing a node, and placing it again\<close>

lemma put_new_cases:
  assumes "put_new me (x # xs) N X = Some Y"
  obtains (final) old es where "xs = []" "X = Dir old es" "Y = Dir old (entry_put x N es)"
  | (fresh) old es d where "xs \<noteq> []" "X = Dir old es" "map_of es x = None"
      "put_new me xs N (Dir me []) = Some d" "Y = Dir old (es @ [(x, d)])"
  | (inside) old es child d where "xs \<noteq> []" "X = Dir old es" "map_of es x = Some child"
      "put_new me xs N child = Some d" "Y = Dir old (entry_modify x (\<lambda>c. d) es)"
  using assms by (cases X) (auto split: if_splits option.splits)

lemma lookup_empty_Dir: "xs \<noteq> [] \<Longrightarrow> lookup (Dir ow []) xs = None"
  by (cases xs) simp_all

lemma put_new_placed:
  "put_new me t N X = Some Y \<Longrightarrow> lookup X t = None \<Longrightarrow> lookup Y t = Some N"
proof (induction t arbitrary: X Y)
  case Nil
  then show ?case by simp
next
  case (Cons x xs)
  from Cons.prems(1) show ?case
  proof (cases rule: put_new_cases)
    case (final old es)
    with Cons.prems(2) have "map_of es x = None" by (simp split: option.splits)
    with final show ?thesis
      by (simp add: entry_put_def map_of_append_new del: map_of_append)
  next
    case (fresh old es d)
    from fresh(1) have "lookup (Dir me []) xs = None" by (rule lookup_empty_Dir)
    from Cons.IH [OF fresh(4) this] fresh show ?thesis
      by (simp add: map_of_append_new del: map_of_append)
  next
    case (inside old es child d)
    with Cons.prems(2) have "lookup child xs = None" by simp
    from Cons.IH [OF inside(4) this] inside show ?thesis
      by (simp add: map_of_entry_modify)
  qed
qed

lemma entry_modify_append_new:
  "map_of es x = None \<Longrightarrow> entry_modify x g (es @ [(x, v)]) = es @ [(x, g v)]"
  by (induction es) (auto split: if_splits)

lemma put_new_again:
  "put_new me t N X = Some Y \<Longrightarrow> lookup X t = None \<Longrightarrow> put_new me t N (remove_at t Y) = Some Y"
proof (induction t arbitrary: X Y)
  case Nil
  then show ?case by simp
next
  case (Cons x xs)
  from Cons.prems(1) show ?case
  proof (cases rule: put_new_cases)
    case (final old es)
    with Cons.prems(2) have absent: "map_of es x = None" by (simp split: option.splits)
    with final show ?thesis
      by (simp add: entry_put_def entry_delete_append_new)
  next
    case (fresh old es d)
    from fresh(1) have "lookup (Dir me []) xs = None" by (rule lookup_empty_Dir)
    from Cons.IH [OF fresh(4) this] have "put_new me xs N (remove_at xs d) = Some d" .
    with fresh show ?thesis
      by (simp add: entry_modify_append_new map_of_append_new del: map_of_append)
  next
    case (inside old es child d)
    with Cons.prems(2) have "lookup child xs = None" by simp
    from Cons.IH [OF inside(4) this] have "put_new me xs N (remove_at xs d) = Some d" .
    with inside show ?thesis
      by (simp add: entry_modify_twice map_of_entry_modify)
  qed
qed

lemma lookup_put_new_apart:
  "put_new me t N X = Some Y \<Longrightarrow> \<not> prefix t q \<Longrightarrow> \<not> prefix q t \<Longrightarrow> lookup Y q = lookup X q"
proof (induction t arbitrary: X Y q)
  case Nil
  then show ?case by simp
next
  case (Cons x xs)
  from Cons.prems(2,3) obtain y ys where q: "q = y # ys"
    by (cases q) auto
  from Cons.prems(1) show ?case
  proof (cases rule: put_new_cases)
    case (final old es)
    with Cons.prems(2) q have "y \<noteq> x" by auto
    with final q show ?thesis
      by (simp add: entry_put_def map_of_entry_modify map_add_def split: option.splits)
  next
    case (fresh old es d)
    show ?thesis
    proof (cases "y = x")
      case False
      with fresh q show ?thesis by (simp add: map_add_def split: option.splits)
    next
      case True
      with Cons.prems(2,3) q have apart: "\<not> prefix xs ys" "\<not> prefix ys xs" by simp_all
      then have "ys \<noteq> []" by auto
      then have "lookup (Dir me []) ys = None" by (rule lookup_empty_Dir)
      with Cons.IH [OF fresh(4) apart] fresh q True show ?thesis
        by (simp add: map_of_append_new del: map_of_append)
    qed
  next
    case (inside old es child d)
    show ?thesis
    proof (cases "y = x")
      case False
      with inside q show ?thesis by (simp add: map_of_entry_modify)
    next
      case True
      with Cons.prems(2,3) q have apart: "\<not> prefix xs ys" "\<not> prefix ys xs" by simp_all
      from Cons.IH [OF inside(4) apart] inside q True show ?thesis
        by (simp add: map_of_entry_modify)
    qed
  qed
qed

subsection \<open>Well-formed trees stay well-formed\<close>

lemma wf_node_Dir_modify:
  assumes "wf_node (Dir ow es)" and "\<And>v. map_of es x = Some v \<Longrightarrow> wf_node (g v)"
  shows "wf_node (Dir ow' (entry_modify x g es))"
proof -
  have "wf_node (snd e)" if "e \<in> set (entry_modify x g es)" for e
  proof -
    from set_entry_modify [OF that] consider "e \<in> set es"
      | v where "(x, v) \<in> set es" "e = (x, g v)"
      by blast
    then show ?thesis
    proof cases
      case 1
      with assms(1) show ?thesis by simp
    next
      case 2
      with assms(1) have "map_of es x = Some v" by (simp add: map_of_is_SomeI)
      with assms(2) 2 show ?thesis by simp
    qed
  qed
  with assms(1) show ?thesis by (simp add: map_fst_entry_modify)
qed

lemma wf_node_Dir_append:
  "wf_node (Dir ow es) \<Longrightarrow> map_of es x = None \<Longrightarrow> wf_node v \<Longrightarrow> wf_node (Dir ow' (es @ [(x, v)]))"
  by (auto simp: map_of_eq_None_iff)

lemma wf_node_Dir_delete: "wf_node (Dir ow es) \<Longrightarrow> wf_node (Dir ow' (entry_delete x es))"
  by (auto simp: entry_delete_def distinct_map_filter)

lemma wf_node_remove_at: "wf_node X \<Longrightarrow> wf_node (remove_at t X)"
proof (induction t arbitrary: X)
  case Nil
  then show ?case by (cases X) simp_all
next
  case (Cons x xs)
  show ?case
  proof (cases X)
    case (File c ow)
    then show ?thesis by simp
  next
    case (Dir ow es)
    show ?thesis
    proof (cases "xs = []")
      case True
      with Dir Cons.prems show ?thesis
        by (simp add: wf_node_Dir_delete del: wf_node.simps)
    next
      case False
      have "wf_node (remove_at xs v)" if "map_of es x = Some v" for v
        using Cons.prems Dir that by (intro Cons.IH) (auto dest: wf_node_child)
      with Cons.prems Dir have "wf_node (Dir ow (entry_modify x (remove_at xs) es))"
        by (intro wf_node_Dir_modify) simp_all
      with Dir False show ?thesis by (simp del: wf_node.simps)
    qed
  qed
qed

lemma wf_node_put_new:
  "put_new me t N X = Some Y \<Longrightarrow> wf_node X \<Longrightarrow> wf_node N \<Longrightarrow> wf_node Y"
proof (induction t arbitrary: X Y)
  case Nil
  then show ?case by simp
next
  case (Cons x xs)
  from Cons.prems(1) show ?case
  proof (cases rule: put_new_cases)
    case (final old es)
    show ?thesis
    proof (cases "map_of es x")
      case None
      with final Cons.prems(2,3) show ?thesis
        by (simp add: entry_put_def wf_node_Dir_append del: wf_node.simps)
    next
      case (Some v)
      from Cons.prems(2) final have "wf_node (Dir old (entry_modify x (\<lambda>c. N) es))"
        using Cons.prems(3) by (intro wf_node_Dir_modify) simp_all
      with final Some show ?thesis
        by (simp add: entry_put_def del: wf_node.simps)
    qed
  next
    case (fresh old es d)
    have "wf_node (Dir me [])" by simp
    from Cons.IH [OF fresh(4) this Cons.prems(3)] have "wf_node d" .
    with fresh Cons.prems(2) show ?thesis
      by (simp add: wf_node_Dir_append del: wf_node.simps)
  next
    case (inside old es child d)
    from Cons.prems(2) inside have "wf_node child" by (auto dest: wf_node_child)
    from Cons.IH [OF inside(4) this Cons.prems(3)] have "wf_node d" .
    with Cons.prems(2) inside have "wf_node (Dir old (entry_modify x (\<lambda>c. d) es))"
      by (intro wf_node_Dir_modify) simp_all
    with inside show ?thesis by simp
  qed
qed

lemma wf_node_fresh_copy: "wf_node n \<Longrightarrow> wf_node (fresh_copy me n)"
  by (induction me n rule: fresh_copy.induct) (auto simp: comp_def)

subsection \<open>Replacing tokens in a text\<close>

lemma replace_scan_absent: "old \<noteq> [] \<Longrightarrow> py_count old s = 0 \<Longrightarrow> replace_scan old new s = s"
proof (induction old s rule: py_count.induct)
  case (1 old s)
  show ?case
  proof (cases "s = []")
    case True
    then show ?thesis by (simp add: replace_scan.simps)
  next
    case False
    with "1.prems" have np: "\<not> prefix old s" and rest: "py_count old (tl s) = 0"
      by (simp_all add: py_count.simps [of old s] split: if_splits)
    from "1.IH"(2) [OF "1.prems"(1) False np "1.prems"(1) rest]
    have "replace_scan old new (tl s) = tl s" .
    with False np "1.prems"(1) show ?thesis
      by (simp add: replace_scan.simps [of old new s])
  qed
qed

lemma py_replace_absent: "py_count old s = 0 \<Longrightarrow> py_replace old new s = s"
proof (cases "old = []")
  case True
  assume "py_count old s = 0"
  with True show ?thesis by (simp add: py_count.simps)
next
  case False
  assume "py_count old s = 0"
  with False show ?thesis by (simp add: py_replace_def replace_scan_absent)
qed

lemma apply_replacements_fold:
  "fst (apply_replacements rs s n) = fold (\<lambda>pair. py_replace (fst pair) (snd pair)) rs s"
proof (induction rs arbitrary: s n)
  case Nil
  show ?case by simp
next
  case (Cons pair rs)
  obtain old new where pair: "pair = (old, new)" by (cases pair)
  show ?case
    by (simp add: pair Let_def Cons.IH py_replace_absent)
qed

subsection \<open>Texts that can be written\<close>

lemma scalar_value_10: "scalar_value 10"
  by (simp add: scalar_value_def)

lemma encode_codepoints_scalar:
  "\<forall>n \<in> set cps. scalar_value n \<Longrightarrow> encode_codepoints cps \<noteq> None"
  by (induction cps) (auto simp: encode_codepoint_def scalar_value_def)

lemma utf8_encode_scalar: "\<forall>n \<in> set cps. scalar_value n \<Longrightarrow> utf8_encode cps \<noteq> None"
  by (simp add: utf8_encode_def encode_codepoints_scalar)

lemma universal_newlines_scalar:
  "\<forall>n \<in> set cps. scalar_value n \<Longrightarrow> \<forall>n \<in> set (universal_newlines cps). scalar_value n"
  by (induction cps rule: universal_newlines.induct) (auto simp: scalar_value_10)

lemma replace_scan_scalar:
  "\<forall>n \<in> set new. P n \<Longrightarrow> \<forall>n \<in> set s. P n \<Longrightarrow> \<forall>n \<in> set (replace_scan old new s). P n"
proof (induction old new s rule: replace_scan.induct)
  case (1 old new s)
  show ?case
  proof (cases "old = [] \<or> s = []")
    case True
    with "1.prems" show ?thesis by (simp add: replace_scan.simps [of old new s])
  next
    case False
    show ?thesis
    proof (cases "prefix old s")
      case True
      from "1.prems"(2) have "\<forall>n \<in> set (drop (length old) s). P n"
        by (auto dest: in_set_dropD)
      from "1.IH"(1) [OF False True "1.prems"(1) this] False True "1.prems"(1)
      show ?thesis by (auto simp: replace_scan.simps [of old new s])
    next
      case np: False
      from False "1.prems"(2) have "\<forall>n \<in> set (tl s). P n" and "P (hd s)"
        by (auto dest: list.set_sel(2))
      with "1.IH"(2) [OF False np "1.prems"(1)] False np
      show ?thesis by (auto simp: replace_scan.simps [of old new s])
    qed
  qed
qed

lemma py_replace_scalar:
  "\<forall>n \<in> set new. P n \<Longrightarrow> \<forall>n \<in> set s. P n \<Longrightarrow> \<forall>n \<in> set (py_replace old new s). P n"
  using replace_scan_scalar [of new P s old] by (auto simp: py_replace_def)

lemma fold_replace_scalar:
  "\<forall>pair \<in> set rs. \<forall>n \<in> set (snd pair). P n \<Longrightarrow> \<forall>n \<in> set s. P n \<Longrightarrow>
   \<forall>n \<in> set (fold (\<lambda>pair. py_replace (fst pair) (snd pair)) rs s). P n"
proof (induction rs arbitrary: s)
  case Nil
  then show ?case by simp
next
  case (Cons pair rs)
  from Cons.prems have "\<forall>n \<in> set (py_replace (fst pair) (snd pair) s). P n"
    by (intro py_replace_scalar) simp_all
  with Cons.prems Cons.IH [of "py_replace (fst pair) (snd pair) s"] show ?case by simp
qed

lemma text_of_scalar: "\<forall>n \<in> set (text_of s). scalar_value n"
proof
  fix n assume "n \<in> set (text_of s)"
  then obtain c :: char where "n = of_char c" by (auto simp: text_of_def)
  with nat_of_char_less_256 [of c] show "scalar_value n"
    unfolding scalar_value_def by linarith
qed

lemma decode_bytes_scalar:
  "decode_bytes bs = Some cps \<Longrightarrow> \<forall>n \<in> set cps. scalar_value n"
proof (induction bs arbitrary: cps rule: decode_bytes.induct)
  case 1
  then show ?case by simp
next
  case (2 b0 bs)
  show ?case
  proof (cases "b0 < 128")
    case True
    with "2.prems" obtain rest where "decode_bytes bs = Some rest" "cps = b0 # rest"
      by auto
    with "2.IH"(1) [OF True, of rest] True show ?thesis
      by (simp add: scalar_value_def)
  next
    case one: False
    show ?thesis
    proof (cases "194 \<le> b0 \<and> b0 \<le> 223")
      case True
      with one "2.prems" obtain b1 more rest where bs: "bs = b1 # more"
        and c: "continuation b1" and d: "decode_bytes more = Some rest"
        and cps: "cps = ((b0 - 192) * 64 + (b1 - 128)) # rest"
        by (auto split: list.splits if_splits)
      from "2.IH"(2) [OF one True bs c d] have "\<forall>n \<in> set rest. scalar_value n" .
      moreover from True c have "scalar_value ((b0 - 192) * 64 + (b1 - 128))"
        unfolding scalar_value_def continuation_def by arith
      ultimately show ?thesis by (simp add: cps)
    next
      case two: False
      show ?thesis
      proof (cases "224 \<le> b0 \<and> b0 \<le> 239")
        case True
        let ?ok = "(if b0 = 224 then 160 \<le> b1 \<and> b1 \<le> 191
                    else if b0 = 237 then 128 \<le> b1 \<and> b1 \<le> 159 else continuation b1)"
        from one two True "2.prems" obtain b1 b2 more rest where bs: "bs = b1 # b2 # more"
          and c: "(if b0 = 224 then 160 \<le> b1 \<and> b1 \<le> 191
                   else if b0 = 237 then 128 \<le> b1 \<and> b1 \<le> 159 else continuation b1)
                  \<and> continuation b2"
          and d: "decode_bytes more = Some rest"
          and cps: "cps = ((b0 - 224) * 4096 + (b1 - 128) * 64 + (b2 - 128)) # rest"
          by (auto split: list.splits if_splits)
        from "2.IH"(3) [OF one two True bs refl c d] have "\<forall>n \<in> set rest. scalar_value n" .
        moreover from True c
        have "scalar_value ((b0 - 224) * 4096 + (b1 - 128) * 64 + (b2 - 128))"
          unfolding scalar_value_def continuation_def
          by (cases "b0 = 224"; cases "b0 = 237"; simp; arith)
        ultimately show ?thesis by (simp add: cps)
      next
        case three: False
        show ?thesis
        proof (cases "240 \<le> b0 \<and> b0 \<le> 244")
          case True
          from one two three True "2.prems" obtain b1 b2 b3 more rest
            where bs: "bs = b1 # b2 # b3 # more"
            and c: "(if b0 = 240 then 144 \<le> b1 \<and> b1 \<le> 191
                     else if b0 = 244 then 128 \<le> b1 \<and> b1 \<le> 143 else continuation b1)
                    \<and> continuation b2 \<and> continuation b3"
            and d: "decode_bytes more = Some rest"
            and cps: "cps = ((b0 - 240) * 262144 + (b1 - 128) * 4096 + (b2 - 128) * 64
                             + (b3 - 128)) # rest"
            by (auto split: list.splits if_splits)
          from "2.IH"(4) [OF one two three True bs refl refl c d]
          have "\<forall>n \<in> set rest. scalar_value n" .
          moreover from True c
          have "scalar_value ((b0 - 240) * 262144 + (b1 - 128) * 4096 + (b2 - 128) * 64
                              + (b3 - 128))"
            unfolding scalar_value_def continuation_def
            by (cases "b0 = 240"; cases "b0 = 244"; simp; arith)
          ultimately show ?thesis by (simp add: cps)
        next
          case False
          with one two three "2.prems" show ?thesis by (auto split: if_splits)
        qed
      qed
    qed
  qed
qed

lemma substituted_ready:
  assumes "utf8_decode b \<noteq> None" and "\<forall>pair \<in> set rs. \<forall>n \<in> set (snd pair). scalar_value n"
  shows "substituted rs b \<noteq> None"
proof -
  from assms(1) obtain cps where cps: "utf8_decode b = Some cps" by auto
  then have "\<forall>n \<in> set cps. scalar_value n"
    by (auto simp: utf8_decode_def dest: decode_bytes_scalar)
  then have "\<forall>n \<in> set (universal_newlines cps). scalar_value n"
    by (rule universal_newlines_scalar)
  with assms(2)
  have "\<forall>n \<in> set (fold (\<lambda>pair. py_replace (fst pair) (snd pair)) rs (universal_newlines cps)).
          scalar_value n"
    by (rule fold_replace_scalar)
  then show ?thesis
    by (simp add: substituted_def cps utf8_encode_scalar)
qed

subsection \<open>What one replacement step does to a file\<close>

lemma replace_in_file_missing:
  "lookup (tree w) p = None \<Longrightarrow>
   fst (replace_in_file env p rs False w) = Return ()
   \<and> tree (snd (replace_in_file env p rs False w)) = tree w"
  by (simp add: replace_in_file_def path_exists_def)

lemma replace_in_file_directory:
  "lookup (tree w) p = Some (Dir ow es) \<Longrightarrow>
   fst (replace_in_file env p rs False w) = Raise IsADirectoryError"
  by (simp add: replace_in_file_def path_exists_def read_text_def)

lemma replace_in_file_written:
  assumes isfile: "lookup (tree w) p = Some (File c ow)" and sub: "substituted rs c = Some b"
  shows "fst (replace_in_file env p rs False w) = Return ()
    \<and> tree (snd (replace_in_file env p rs False w)) = modify_at p (\<lambda>old. File b ow) (tree w)"
proof -
  from sub obtain cps where cps: "utf8_decode c = Some cps"
    and enc: "utf8_encode (fold (\<lambda>pair. py_replace (fst pair) (snd pair)) rs
                (universal_newlines cps)) = Some b"
    by (auto simp: substituted_def split: option.splits)
  obtain body n where ar: "apply_replacements rs (universal_newlines cps) 0 = (body, n)"
    by (cases "apply_replacements rs (universal_newlines cps) 0")
  with apply_replacements_fold [of rs "universal_newlines cps" 0]
  have body: "body = fold (\<lambda>pair. py_replace (fst pair) (snd pair)) rs (universal_newlines cps)"
    by simp
  from isfile have "write_text (euid env, egid env) p body (tree w)
      = (None, modify_at p (\<lambda>old. File b ow) (tree w))"
    by (simp add: write_text_existing_file body enc)
  with isfile cps ar show ?thesis
    by (simp add: replace_in_file_def path_exists_def read_text_def)
qed

lemma replace_in_file_unwritable:
  assumes isfile: "lookup (tree w) p = Some (File c ow)" and sub: "substituted rs c = None"
  shows "fst (replace_in_file env p rs False w) \<noteq> Return ()"
proof (cases "utf8_decode c")
  case None
  with isfile show ?thesis
    by (simp add: replace_in_file_def path_exists_def read_text_def)
next
  case (Some cps)
  with sub have enc: "utf8_encode (fold (\<lambda>pair. py_replace (fst pair) (snd pair)) rs
                (universal_newlines cps)) = None"
    by (simp add: substituted_def)
  obtain body n where ar: "apply_replacements rs (universal_newlines cps) 0 = (body, n)"
    by (cases "apply_replacements rs (universal_newlines cps) 0")
  with apply_replacements_fold [of rs "universal_newlines cps" 0]
  have body: "body = fold (\<lambda>pair. py_replace (fst pair) (snd pair)) rs (universal_newlines cps)"
    by simp
  from isfile have "write_text (euid env, egid env) p body (tree w)
      = (Some UnicodeEncodeError, modify_at p (\<lambda>old. File [] ow) (tree w))"
    by (simp add: write_text_existing_file body enc)
  with isfile Some ar show ?thesis
    by (simp add: replace_in_file_def path_exists_def read_text_def)
qed

lemma replace_in_file_returned:
  assumes "fst (replace_in_file env p rs False w) = Return ()"
  shows "entry_at (tree (snd (replace_in_file env p rs False w))) q =
     (if q = p then Option.bind (entry_at (tree w) p) (substituted_entry rs)
      else entry_at (tree w) q)"
proof (cases "lookup (tree w) p")
  case None
  with replace_in_file_missing [OF None, of env rs] show ?thesis
    by (simp add: entry_at_def)
next
  case (Some n)
  show ?thesis
  proof (cases n)
    case (Dir ow es)
    with Some assms replace_in_file_directory [of w p ow es env rs] show ?thesis by simp
  next
    case (File c ow)
    with Some have isfile: "lookup (tree w) p = Some (File c ow)" by simp
    show ?thesis
    proof (cases "substituted rs c")
      case None
      with replace_in_file_unwritable [OF isfile None, of env] assms show ?thesis by simp
    next
      case (Some b)
      from replace_in_file_written [OF isfile Some, of env]
      have "tree (snd (replace_in_file env p rs False w))
          = modify_at p (\<lambda>old. File b ow) (tree w)"
        by simp
      with entry_at_write [OF isfile, of b ow q] isfile Some show ?thesis
        by (simp add: entry_at_def substituted_entry_def)
    qed
  qed
qed

lemma replace_in_file_ready:
  assumes ready: "readable_or_missing (tree w) p"
    and pairs: "\<forall>pair \<in> set rs. \<forall>n \<in> set (snd pair). scalar_value n"
  shows "fst (replace_in_file env p rs False w) = Return ()"
proof (cases "lookup (tree w) p")
  case None
  then show ?thesis by (simp add: replace_in_file_missing)
next
  case (Some n)
  show ?thesis
  proof (cases n)
    case (Dir ow es)
    with Some ready show ?thesis by (simp add: readable_or_missing_def entry_at_def)
  next
    case (File c ow)
    with Some have isfile: "lookup (tree w) p = Some (File c ow)" by simp
    with ready have "utf8_decode c \<noteq> None"
      by (simp add: readable_or_missing_def entry_at_def)
    from substituted_ready [OF this pairs] obtain b where "substituted rs c = Some b"
      by auto
    from replace_in_file_written [OF isfile this] show ?thesis by simp
  qed
qed

lemma replace_in_file_wf:
  "wf_node (tree w) \<Longrightarrow> wf_node (tree (snd (replace_in_file env p rs False w)))"
proof (cases "lookup (tree w) p")
  case None
  assume "wf_node (tree w)"
  with None show ?thesis by (simp add: replace_in_file_missing)
next
  case (Some n)
  assume wf: "wf_node (tree w)"
  show ?thesis
  proof (cases n)
    case (Dir ow es)
    with Some wf show ?thesis
      by (simp add: replace_in_file_def path_exists_def read_text_def)
  next
    case (File c ow)
    with Some have isfile: "lookup (tree w) p = Some (File c ow)" by simp
    have "wf_node (modify_at p (\<lambda>old. File b ow) (tree w))" for b
      using wf by (intro wf_node_modify_at) simp_all
    with isfile wf show ?thesis
      by (simp add: replace_in_file_def path_exists_def read_text_def write_text_existing_file
          split: option.splits prod.splits)
  qed
qed

lemma readable_or_missing_cong:
  "entry_at X p = entry_at Y p \<Longrightarrow> readable_or_missing X p = readable_or_missing Y p"
  by (simp add: readable_or_missing_def)

subsection \<open>Steps that returned\<close>

lemma and_then_returned:
  assumes "fst (and_then f g w) = Return v"
  shows "fst (f w) = Return ()" and "and_then f g w = g (snd (f w))"
proof -
  obtain r w' where fw: "f w = (r, w')" by (cases "f w")
  with assms show "fst (f w) = Return ()"
    by (cases r) (simp_all add: and_then_def)
  then show "and_then f g w = g (snd (f w))" by (rule and_then_Return)
qed

lemma handle_existing_target_returned:
  assumes "fst (handle_existing_target env t frc False ev w) = Return ()"
  shows "tree (snd (handle_existing_target env t frc False ev w)) = remove_at t (tree w)"
    and "lookup (tree w) t = None \<or> path_is_dir (tree w) t"
proof -
  show "lookup (tree w) t = None \<or> path_is_dir (tree w) t"
    using assms
    by (cases ev)
       (auto simp: handle_existing_target_def path_exists_def path_is_dir_def rmtree_def
          Let_def py_input_def
          split: if_splits option.splits node.splits sum.splits)
  show "tree (snd (handle_existing_target env t frc False ev w)) = remove_at t (tree w)"
    using assms
    by (cases ev)
       (auto simp: handle_existing_target_def path_exists_def rmtree_def remove_at_absent
          Let_def py_input_def
          split: if_splits option.splits node.splits sum.splits)
qed

lemma copy_template_returned:
  assumes "fst (copy_template env s t False w) = Return ()"
  shows "\<exists>ow es. lookup (tree w) s = Some (Dir ow es) \<and> lookup (tree w) t = None
    \<and> put_new (euid env, egid env) t (fresh_copy (euid env, egid env) (Dir ow es)) (tree w)
        = Some (tree (snd (copy_template env s t False w)))"
  using assms
  by (auto simp: copy_template_def copytree_def
      split: option.splits node.splits if_splits sum.splits)

lemma copy_template_placed:
  assumes "lookup (tree w) s = Some (Dir ow es)" and "lookup (tree w) t = None"
    and "put_new (euid env, egid env) t (fresh_copy (euid env, egid env) (Dir ow es)) (tree w)
        = Some Y"
  shows "fst (copy_template env s t False w) = Return ()
    \<and> tree (snd (copy_template env s t False w)) = Y"
  using assms by (simp add: copy_template_def copytree_def)

subsection \<open>A run that ends with status 0 returned from every step\<close>

lemma and_then_no_clean_exit:
  assumes "\<And>w. no_clean_exit (fst (f w))" and "\<And>w. no_clean_exit (fst (g w))"
  shows "no_clean_exit (fst (and_then f g w))"
proof (cases "f w")
  case (Pair r w')
  with assms(1) [of w] assms(2) [of w'] show ?thesis
    by (cases r) (simp_all add: and_then_def no_clean_exit_def)
qed

lemma chown_paths_no_clean_exit: "no_clean_exit (fst (chown_paths env ow ps X))"
proof (induction ps arbitrary: X)
  case Nil
  show ?case by (simp add: no_clean_exit_def)
next
  case (Cons p ps)
  then show ?case
    by (cases "os_chown env ow p X") (simp_all add: no_clean_exit_def)
qed

lemma chown_recursive_no_clean_exit:
  "no_clean_exit (fst (chown_recursive env d u g dry w))"
  using chown_paths_no_clean_exit [of env "(u, g)" "walk_calls (os_walk (tree w) d)" "tree w"]
  by (cases "chown_paths env (u, g) (walk_calls (os_walk (tree w) d)) (tree w)")
     (simp add: chown_recursive_def no_clean_exit_def)

lemma set_permissions_no_clean_exit: "no_clean_exit (fst (set_permissions env t dry w))"
proof (cases "has_privilege env")
  case False
  then show ?thesis
    by (simp add: set_permissions_def no_clean_exit_def EXIT_PERMISSION_ERROR_def)
next
  case True
  show ?thesis
    unfolding set_permissions_privileged [OF True]
    by (intro and_then_no_clean_exit chown_recursive_no_clean_exit)
       (simp add: no_clean_exit_def)
qed

lemma deploy_steps_no_clean_exit:
  "no_clean_exit (fst (deploy_steps env ev d l m s frc dry w))"
  unfolding deploy_steps_def Let_def configure_env_def configure_config_inc_def
    configure_compose_def
  by (intro and_then_no_clean_exit validate_environment_no_clean_exit
      handle_existing_target_no_clean_exit copy_template_no_clean_exit
      replace_in_file_no_clean_exit set_permissions_no_clean_exit)
     (simp_all add: no_clean_exit_def)

lemma deploy_status_0:
  assumes "fst (deploy a env ev root) = 0"
    and "no_clean_exit (fst (main a env ev (start_world root)))"
  shows "fst (main a env ev (start_world root)) = Return 0"
  using assms
  by (cases "main a env ev (start_world root)")
     (auto simp: deploy_def no_clean_exit_def EXIT_USER_ERROR_def
        split: result.splits if_splits)

subsection \<open>What the configuration steps leave\<close>

lemma configured_entry_env:
  "configured_entry d l m s [''.env''] =
     substituted_entry [(text_of TOKEN_DOMAIN, text_of d), (text_of TOKEN_ACME_EMAIL, text_of m),
                        (text_of TOKEN_DB_HOST, text_of (''db-'' @ s))]"
  by (rule ext)
     (simp add: configured_entry_def substituted_entry_def configured_bytes_def TOKEN_DOMAIN_def
        TOKEN_ACME_EMAIL_def TOKEN_DB_HOST_def split: entry.splits)

lemma configured_entry_config_inc:
  "configured_entry d l m s [''volumes'', ''config'', ''config.inc.php''] =
     substituted_entry [(text_of TOKEN_DOMAIN, text_of d), (text_of TOKEN_LOCALE, text_of l),
                        (text_of TOKEN_DB_HOST, text_of (''db-'' @ s))]"
  by (rule ext)
     (simp add: configured_entry_def substituted_entry_def configured_bytes_def TOKEN_DOMAIN_def
        TOKEN_LOCALE_def TOKEN_DB_HOST_def split: entry.splits)

lemma configured_entry_compose:
  "configured_entry d l m s [''compose.yml''] =
     substituted_entry [(text_of TOKEN_JOURNAL, text_of (''journal-'' @ s)),
                        (text_of TOKEN_DATABASE, text_of (''db-'' @ s))]"
  by (rule ext)
     (simp add: configured_entry_def substituted_entry_def configured_bytes_def TOKEN_JOURNAL_def
        TOKEN_DATABASE_def split: entry.splits)

lemma configured_entry_other:
  "r \<noteq> [''.env''] \<Longrightarrow> r \<noteq> [''volumes'', ''config'', ''config.inc.php''] \<Longrightarrow>
   r \<noteq> [''compose.yml''] \<Longrightarrow> Option.bind e (configured_entry d l m s r) = e"
  by (cases e)
     (simp_all add: configured_entry_def configured_bytes_def split: entry.splits)

lemma configure_and_own_returned:
  assumes "fst (configure_and_own env d l m s w) = Return st"
  shows "entry_at (tree (snd (configure_and_own env d l m s w))) (path_parts s @ r)
         = Option.bind (entry_at (tree w) (path_parts s @ r)) (configured_entry d l m s r)"
proof -
  let ?t = "path_parts s"
  let ?rs1 = "[(text_of TOKEN_DOMAIN, text_of d), (text_of TOKEN_ACME_EMAIL, text_of m),
               (text_of TOKEN_DB_HOST, text_of (''db-'' @ s))]"
  let ?rs2 = "[(text_of TOKEN_DOMAIN, text_of d), (text_of TOKEN_LOCALE, text_of l),
               (text_of TOKEN_DB_HOST, text_of (''db-'' @ s))]"
  let ?rs3 = "[(text_of TOKEN_JOURNAL, text_of (''journal-'' @ s)),
               (text_of TOKEN_DATABASE, text_of (''db-'' @ s))]"
  let ?c1 = "replace_in_file env (?t @ [''.env'']) ?rs1 False"
  let ?c2 = "replace_in_file env (?t @ [''volumes'', ''config'', ''config.inc.php'']) ?rs2 False"
  let ?c3 = "replace_in_file env (?t @ [''compose.yml'']) ?rs3 False"
  let ?sp = "set_permissions env ?t False"
  let ?fin = "\<lambda>w. (Return EXIT_SUCCESS, print_summary d (rel_path_str ?t) w)"
  let ?k3 = "and_then ?sp ?fin"
  let ?k2 = "and_then ?c3 ?k3"
  let ?k1 = "and_then ?c2 ?k2"
  have run: "configure_and_own env d l m s = and_then ?c1 ?k1"
    by (simp add: configure_and_own_def configure_env_def configure_config_inc_def
        configure_compose_def)
  let ?w1 = "snd (?c1 w)"
  let ?w2 = "snd (?c2 ?w1)"
  let ?w3 = "snd (?c3 ?w2)"
  let ?w4 = "snd (?sp ?w3)"
  from assms have a0: "fst (and_then ?c1 ?k1 w) = Return st" by (simp only: run)
  note s1 = and_then_returned [where f = ?c1 and g = ?k1, OF a0]
  from a0 have a1: "fst (and_then ?c2 ?k2 ?w1) = Return st" by (simp only: s1(2))
  note s2 = and_then_returned [where f = ?c2 and g = ?k2, OF a1]
  from a1 have a2: "fst (and_then ?c3 ?k3 ?w2) = Return st" by (simp only: s2(2))
  note s3 = and_then_returned [where f = ?c3 and g = ?k3, OF a2]
  from a2 have a3: "fst (and_then ?sp ?fin ?w3) = Return st" by (simp only: s3(2))
  note s4 = and_then_returned [where f = ?sp and g = ?fin, OF a3]
  have "configure_and_own env d l m s w = ?fin ?w4"
    by (simp only: run s1(2) s2(2) s3(2) s4(2))
  then have fin: "tree (snd (configure_and_own env d l m s w)) = tree ?w4" by simp
  note e1 = replace_in_file_returned [OF s1(1)]
  note e2 = replace_in_file_returned [OF s2(1)]
  note e3 = replace_in_file_returned [OF s3(1)]
  have e4: "entry_at (tree ?w4) q = entry_at (tree ?w3) q" for q
    by (rule set_permissions_entry_at)
  consider (env) "r = [''.env'']" | (inc) "r = [''volumes'', ''config'', ''config.inc.php'']"
    | (compose) "r = [''compose.yml'']"
    | (other) "r \<noteq> [''.env'']" "r \<noteq> [''volumes'', ''config'', ''config.inc.php'']"
        "r \<noteq> [''compose.yml'']"
    by blast
  then show ?thesis
  proof cases
    case env
    then show ?thesis
      by (simp only: fin e4 e3 e2 e1 configured_entry_env) simp
  next
    case inc
    then show ?thesis
      by (simp only: fin e4 e3 e2 e1 configured_entry_config_inc) simp
  next
    case compose
    then show ?thesis
      by (simp only: fin e4 e3 e2 e1 configured_entry_compose) simp
  next
    case other
    then show ?thesis
      by (simp only: fin e4 e3 e2 e1) (simp add: configured_entry_other)
  qed
qed

lemma configure_and_own_succeeds:
  assumes root: "euid env = 0" and wf: "wf_node (tree w)"
    and ready: "\<forall>r \<in> set CONFIGURED_FILES. readable_or_missing (tree w) (path_parts s @ r)"
  shows "fst (configure_and_own env d l m s w) = Return EXIT_SUCCESS"
proof -
  let ?t = "path_parts s"
  let ?rs1 = "[(text_of TOKEN_DOMAIN, text_of d), (text_of TOKEN_ACME_EMAIL, text_of m),
               (text_of TOKEN_DB_HOST, text_of (''db-'' @ s))]"
  let ?rs2 = "[(text_of TOKEN_DOMAIN, text_of d), (text_of TOKEN_LOCALE, text_of l),
               (text_of TOKEN_DB_HOST, text_of (''db-'' @ s))]"
  let ?rs3 = "[(text_of TOKEN_JOURNAL, text_of (''journal-'' @ s)),
               (text_of TOKEN_DATABASE, text_of (''db-'' @ s))]"
  let ?c1 = "replace_in_file env (?t @ [''.env'']) ?rs1 False"
  let ?c2 = "replace_in_file env (?t @ [''volumes'', ''config'', ''config.inc.php'']) ?rs2 False"
  let ?c3 = "replace_in_file env (?t @ [''compose.yml'']) ?rs3 False"
  let ?sp = "set_permissions env ?t False"
  let ?fin = "\<lambda>w. (Return EXIT_SUCCESS, print_summary d (rel_path_str ?t) w)"
  let ?k3 = "and_then ?sp ?fin"
  let ?k2 = "and_then ?c3 ?k3"
  let ?k1 = "and_then ?c2 ?k2"
  have run: "configure_and_own env d l m s = and_then ?c1 ?k1"
    by (simp add: configure_and_own_def configure_env_def configure_config_inc_def
        configure_compose_def)
  let ?w1 = "snd (?c1 w)"
  let ?w2 = "snd (?c2 ?w1)"
  let ?w3 = "snd (?c3 ?w2)"
  let ?w4 = "snd (?sp ?w3)"
  from ready have ready0: "readable_or_missing (tree w) (?t @ [''.env''])"
    "readable_or_missing (tree w) (?t @ [''volumes'', ''config'', ''config.inc.php''])"
    "readable_or_missing (tree w) (?t @ [''compose.yml''])"
    by (simp_all add: CONFIGURED_FILES_def)
  have p1: "\<forall>pair \<in> set ?rs1. \<forall>n \<in> set (snd pair). scalar_value n"
    and p2: "\<forall>pair \<in> set ?rs2. \<forall>n \<in> set (snd pair). scalar_value n"
    and p3: "\<forall>pair \<in> set ?rs3. \<forall>n \<in> set (snd pair). scalar_value n"
    using text_of_scalar by simp_all
  have r1: "fst (?c1 w) = Return ()"
    using ready0(1) p1 by (rule replace_in_file_ready)
  have wf1: "wf_node (tree ?w1)" using wf by (rule replace_in_file_wf)
  have ready1: "readable_or_missing (tree ?w1) (?t @ [''volumes'', ''config'', ''config.inc.php''])"
    "readable_or_missing (tree ?w1) (?t @ [''compose.yml''])"
    using ready0(2,3)
    by (simp_all only: readable_or_missing_def replace_in_file_returned [OF r1]) simp_all
  have r2: "fst (?c2 ?w1) = Return ()"
    using ready1(1) p2 by (rule replace_in_file_ready)
  have wf2: "wf_node (tree ?w2)" using wf1 by (rule replace_in_file_wf)
  have ready2: "readable_or_missing (tree ?w2) (?t @ [''compose.yml''])"
    using ready1(2)
    by (simp only: readable_or_missing_def replace_in_file_returned [OF r2]) simp
  have r3: "fst (?c3 ?w2) = Return ()"
    using ready2 p3 by (rule replace_in_file_ready)
  have wf3: "wf_node (tree ?w3)" using wf2 by (rule replace_in_file_wf)
  have r4: "fst (?sp ?w3) = Return ()"
    using root wf3 by (rule set_permissions_superuser)
  have s1: "and_then ?c1 ?k1 w = ?k1 ?w1"
    using r1 by (rule and_then_Return [where f = ?c1])
  have s2: "and_then ?c2 ?k2 ?w1 = ?k2 ?w2"
    using r2 by (rule and_then_Return [where f = ?c2])
  have s3: "and_then ?c3 ?k3 ?w2 = ?k3 ?w3"
    using r3 by (rule and_then_Return [where f = ?c3])
  have s4: "and_then ?sp ?fin ?w3 = ?fin ?w4"
    using r4 by (rule and_then_Return [where f = ?sp])
  have "configure_and_own env d l m s w = ?fin ?w4"
    by (simp only: run s1 s2 s3 s4)
  then show ?thesis by simp
qed

subsection \<open>From the command line to the configuration steps\<close>

lemma run_reaches_configure:
  assumes lv: "arg_log_level a \<in> set LOG_LEVEL_CHOICES"
    and nodry: "\<not> arg_dry_run a"
    and sub: "extract_subdomain (arg_domain a) = Inr sub"
    and apart: "\<not> prefix (path_parts sub) [TEMPLATE_DIR]"
      "\<not> prefix [TEMPLATE_DIR] (path_parts sub)"
    and tmpl: "lookup T [TEMPLATE_DIR] = Some (Dir ow es)"
    and place: "(path_is_dir T (path_parts sub) \<and> arg_force a) \<or> lookup T (path_parts sub) = None"
    and put: "put_new (euid env, egid env) (path_parts sub)
        (fresh_copy (euid env, egid env) (Dir ow es)) (remove_at (path_parts sub) T) = Some Y"
  shows "\<exists>v. tree v = Y
    \<and> main a env ev (start_world T) =
        configure_and_own env (arg_domain a) (arg_locale a)
          (email_or_default (arg_email a) (arg_domain a)) sub v"
proof -
  let ?t = "path_parts sub"
  let ?d = "arg_domain a" and ?l = "arg_locale a"
  let ?m = "email_or_default (arg_email a) (arg_domain a)"
  from apart(1) have t: "?t \<noteq> []" by auto
  from main_valid_command_line [OF lv sub, of "start_world T" env ev] nodry
  obtain w1 where w1: "tree w1 = T"
    and m: "main a env ev (start_world T) =
        deploy_steps env ev ?d ?l ?m sub (arg_force a) False w1"
    by (auto simp: start_world_def)
  let ?v = "validate_environment env [TEMPLATE_DIR]"
  let ?h = "handle_existing_target env ?t (arg_force a) False ev"
  let ?log = "\<lambda>w. (Return (), log_msg INFO (''Deploying '' @ ?d @ '' to ''
                                   @ path_name env ?t @ '' ...'') w)"
  let ?copy = "copy_template env [TEMPLATE_DIR] ?t False"
  let ?co = "configure_and_own env ?d ?l ?m sub"
  let ?ac = "after_collision env ?d ?l ?m sub"
  let ?wv = "snd (?v w1)"
  let ?wh = "snd (?h ?wv)"
  let ?wl = "snd (?log ?wh)"
  let ?wc = "snd (?copy ?wl)"
  from tmpl w1 have "path_is_dir (tree w1) [TEMPLATE_DIR]" by (simp add: path_is_dir_def)
  then have v: "fst (?v w1) = Return ()" by (rule validate_environment_passes)
  have vt: "tree ?wv = T" by (simp add: validate_environment_frame w1)
  have h: "fst (?h ?wv) = Return () \<and> tree ?wh = remove_at ?t T"
  proof (cases "lookup T ?t = None")
    case True
    then show ?thesis
      by (simp add: handle_existing_target_def path_exists_def vt remove_at_absent)
  next
    case False
    with place have dir: "path_is_dir (tree ?wv) ?t" and frc: "arg_force a"
      by (simp_all add: vt)
    from handle_existing_target_forced [OF dir, of env ev] frc show ?thesis
      by (simp add: vt)
  qed
  have lt: "tree ?wl = remove_at ?t T" using h by simp
  have "lookup (remove_at ?t T) [TEMPLATE_DIR] = lookup T [TEMPLATE_DIR]"
    using apart by (rule lookup_remove_at_apart)
  with tmpl lt have src: "lookup (tree ?wl) [TEMPLATE_DIR] = Some (Dir ow es)" by simp
  have free: "lookup (tree ?wl) ?t = None"
    using t h by (simp add: lookup_remove_at_same)
  from put lt have "put_new (euid env, egid env) ?t
      (fresh_copy (euid env, egid env) (Dir ow es)) (tree ?wl) = Some Y"
    by simp
  from copy_template_placed [OF src free this]
  have c: "fst (?copy ?wl) = Return ()" and ct: "tree ?wc = Y" by simp_all
  have s1: "and_then ?v (and_then ?h ?ac) w1 = and_then ?h ?ac ?wv"
    using v by (rule and_then_Return [where f = ?v])
  have s2: "and_then ?h ?ac ?wv = ?ac ?wh"
    using conjunct1 [OF h] by (rule and_then_Return [where f = ?h])
  have "fst (?log ?wh) = Return ()" by simp
  then have s3: "and_then ?log (and_then ?copy ?co) ?wh = and_then ?copy ?co ?wl"
    by (rule and_then_Return [where f = ?log])
  have s4: "and_then ?copy ?co ?wl = ?co ?wc"
    using c by (rule and_then_Return [where f = ?copy])
  have ac: "?ac ?wh = ?co ?wc"
    unfolding after_collision_def by (simp only: s3 s4)
  have "main a env ev (start_world T) = ?co ?wc"
    unfolding m deploy_steps_split by (simp only: s1 s2 ac)
  with ct show ?thesis by blast
qed

lemma successful_run:
  assumes lv: "arg_log_level a \<in> set LOG_LEVEL_CHOICES"
    and nodry: "\<not> arg_dry_run a"
    and sub: "extract_subdomain (arg_domain a) = Inr sub"
    and apart: "\<not> prefix (path_parts sub) [TEMPLATE_DIR]"
      "\<not> prefix [TEMPLATE_DIR] (path_parts sub)"
    and ok: "fst (deploy a env ev T) = EXIT_SUCCESS"
  shows "\<exists>ow es v. lookup T [TEMPLATE_DIR] = Some (Dir ow es)
    \<and> put_new (euid env, egid env) (path_parts sub)
        (fresh_copy (euid env, egid env) (Dir ow es)) (remove_at (path_parts sub) T)
        = Some (tree v)
    \<and> main a env ev (start_world T) =
        configure_and_own env (arg_domain a) (arg_locale a)
          (email_or_default (arg_email a) (arg_domain a)) sub v
    \<and> fst (configure_and_own env (arg_domain a) (arg_locale a)
          (email_or_default (arg_email a) (arg_domain a)) sub v) = Return EXIT_SUCCESS"
proof -
  let ?t = "path_parts sub"
  let ?d = "arg_domain a" and ?l = "arg_locale a"
  let ?m = "email_or_default (arg_email a) (arg_domain a)"
  from apart(1) have t: "?t \<noteq> []" by auto
  from main_valid_command_line [OF lv sub, of "start_world T" env ev] nodry
  obtain w1 where w1: "tree w1 = T"
    and m: "main a env ev (start_world T) =
        deploy_steps env ev ?d ?l ?m sub (arg_force a) False w1"
    by (auto simp: start_world_def)
  let ?v = "validate_environment env [TEMPLATE_DIR]"
  let ?h = "handle_existing_target env ?t (arg_force a) False ev"
  let ?log = "\<lambda>w. (Return (), log_msg INFO (''Deploying '' @ ?d @ '' to ''
                                   @ path_name env ?t @ '' ...'') w)"
  let ?copy = "copy_template env [TEMPLATE_DIR] ?t False"
  let ?co = "configure_and_own env ?d ?l ?m sub"
  let ?k2 = "and_then ?copy ?co"
  let ?k1 = "and_then ?log ?k2"
  let ?k0 = "and_then ?h ?k1"
  let ?wv = "snd (?v w1)"
  let ?wh = "snd (?h ?wv)"
  let ?wl = "snd (?log ?wh)"
  let ?wc = "snd (?copy ?wl)"
  have split: "deploy_steps env ev ?d ?l ?m sub (arg_force a) False = and_then ?v ?k0"
    unfolding deploy_steps_split after_collision_def ..
  have "no_clean_exit (fst (main a env ev (start_world T)))"
    unfolding m by (rule deploy_steps_no_clean_exit)
  with ok have "fst (main a env ev (start_world T)) = Return 0"
    by (intro deploy_status_0) (simp_all add: EXIT_SUCCESS_def)
  then have a0: "fst (and_then ?v ?k0 w1) = Return 0"
    by (simp only: m split)
  note s0 = and_then_returned [where f = ?v and g = ?k0, OF a0]
  from a0 have a1: "fst (and_then ?h ?k1 ?wv) = Return 0" by (simp only: s0(2))
  note s1 = and_then_returned [where f = ?h and g = ?k1, OF a1]
  from a1 have a2: "fst (and_then ?log ?k2 ?wh) = Return 0" by (simp only: s1(2))
  note s2 = and_then_returned [where f = ?log and g = ?k2, OF a2]
  from a2 have a3: "fst (and_then ?copy ?co ?wl) = Return 0" by (simp only: s2(2))
  note s3 = and_then_returned [where f = ?copy and g = ?co, OF a3]
  from a3 have a4: "fst (?co ?wc) = Return 0" by (simp only: s3(2))
  have run: "main a env ev (start_world T) = ?co ?wc"
    by (simp only: m split s0(2) s1(2) s2(2) s3(2))
  have vt: "tree ?wv = T" by (simp add: validate_environment_frame w1)
  from handle_existing_target_returned(1) [OF s1(1)] vt
  have ht: "tree ?wh = remove_at ?t T" by simp
  then have lt: "tree ?wl = remove_at ?t T" by simp
  from copy_template_returned [OF s3(1)] obtain ow es
    where src: "lookup (tree ?wl) [TEMPLATE_DIR] = Some (Dir ow es)"
      and put: "put_new (euid env, egid env) ?t (fresh_copy (euid env, egid env) (Dir ow es))
          (tree ?wl) = Some (tree ?wc)"
    by blast
  have "lookup (remove_at ?t T) [TEMPLATE_DIR] = lookup T [TEMPLATE_DIR]"
    using apart by (rule lookup_remove_at_apart)
  with src lt have tmpl: "lookup T [TEMPLATE_DIR] = Some (Dir ow es)" by simp
  from put lt have put': "put_new (euid env, egid env) ?t
      (fresh_copy (euid env, egid env) (Dir ow es)) (remove_at ?t T) = Some (tree ?wc)"
    by simp
  from a4 have "fst (?co ?wc) = Return EXIT_SUCCESS" by (simp add: EXIT_SUCCESS_def)
  with tmpl put' run show ?thesis by blast
qed

lemma template_entries_copied:
  assumes tmpl: "lookup T [TEMPLATE_DIR] = Some (Dir ow es)"
    and put: "put_new me t (fresh_copy me (Dir ow es)) X = Some Y"
    and free: "lookup X t = None"
  shows "entry_at Y (t @ r) = entry_at T (TEMPLATE_DIR # r)"
proof -
  from put_new_placed [OF put free] have "lookup Y t = Some (fresh_copy me (Dir ow es))" .
  then have "entry_at Y (t @ r) = entry_at (fresh_copy me (Dir ow es)) r"
    by (rule entry_at_below)
  also have "\<dots> = entry_at (Dir ow es) r" by (rule entry_at_fresh_copy)
  also from entry_at_below [OF tmpl, of r] have "\<dots> = entry_at T (TEMPLATE_DIR # r)" by simp
  finally show ?thesis .
qed

subsection \<open>Two forced runs, however the first one ends\<close>

lemma missing_template_run:
  assumes lv: "arg_log_level a \<in> set LOG_LEVEL_CHOICES"
    and sub: "extract_subdomain (arg_domain a) = Inr sub"
    and missing: "\<not> path_is_dir root [TEMPLATE_DIR]"
  shows "fst (deploy a env ev root) = EXIT_USER_ERROR \<and> tree (snd (deploy a env ev root)) = root"
proof -
  from main_valid_command_line [OF lv sub, of "start_world root" env ev]
  obtain w1 where w1: "tree w1 = root"
    and m: "main a env ev (start_world root) =
        deploy_steps env ev (arg_domain a) (arg_locale a)
          (email_or_default (arg_email a) (arg_domain a)) sub (arg_force a) (arg_dry_run a) w1"
    by (auto simp: start_world_def)
  from missing w1 have v: "fst (validate_environment env [TEMPLATE_DIR] w1) = SysExit EXIT_USER_ERROR"
    by (simp add: validate_environment_fails)
  have "main a env ev (start_world root) =
      (SysExit EXIT_USER_ERROR, snd (validate_environment env [TEMPLATE_DIR] w1))"
    unfolding m deploy_steps_def Let_def using v by (rule and_then_SysExit)
  with w1 show ?thesis
    by (simp add: deploy_from_main validate_environment_frame)
qed

lemma forced_run_twice:
  assumes lv: "arg_log_level a \<in> set LOG_LEVEL_CHOICES"
    and frc: "arg_force a" and nodry: "\<not> arg_dry_run a"
    and sub: "extract_subdomain (arg_domain a) = Inr sub"
    and inst: "path_is_dir root (path_parts sub)"
    and apart: "\<not> prefix (path_parts sub) [TEMPLATE_DIR]" "\<not> prefix [TEMPLATE_DIR] (path_parts sub)"
    and again: "arg_domain a2 = arg_domain a" "arg_locale a2 = arg_locale a"
      "arg_email a2 = arg_email a" "arg_force a2" "\<not> arg_dry_run a2"
      "arg_log_level a2 \<in> set LOG_LEVEL_CHOICES"
  shows "fst (deploy a2 env ev2 (tree (snd (deploy a env ev1 root)))) = fst (deploy a env ev1 root)
    \<and> tree (snd (deploy a2 env ev2 (tree (snd (deploy a env ev1 root)))))
        = tree (snd (deploy a env ev1 root))"
proof (cases "path_is_dir root [TEMPLATE_DIR]")
  case False
  from again(1) sub have sub2: "extract_subdomain (arg_domain a2) = Inr sub" by simp
  from missing_template_run [OF lv sub False, of env ev1]
  have one: "fst (deploy a env ev1 root) = EXIT_USER_ERROR"
    "tree (snd (deploy a env ev1 root)) = root"
    by simp_all
  from missing_template_run [OF again(6) sub2 False, of env ev2] one show ?thesis by simp
next
  case True
  let ?t = "path_parts sub"
  let ?ac = "after_collision env (arg_domain a) (arg_locale a)
          (email_or_default (arg_email a) (arg_domain a)) sub"
  let ?X = "remove_at ?t root"
  from again(1) sub have sub2: "extract_subdomain (arg_domain a2) = Inr sub" by simp
  from apart(1) have t: "?t \<noteq> []" by auto
  from forced_run_on_instance [OF lv frc nodry sub inst True, of env ev1]
  obtain h1 where h1: "tree h1 = ?X" and m1: "main a env ev1 (start_world root) = ?ac h1"
    by blast
  let ?T1 = "tree (snd (?ac h1))"
  have free: "lookup (tree h1) ?t = None"
    using t by (simp add: h1 lookup_remove_at_same)
  have parent: "path_is_dir (tree h1) (butlast ?t)"
    using inst t by (simp add: h1 parent_dir_after_remove)
  have tmplX: "lookup ?X [TEMPLATE_DIR] = lookup root [TEMPLATE_DIR]"
    using apart by (rule lookup_remove_at_apart)
  with True have template: "path_is_dir (tree h1) [TEMPLATE_DIR]"
    by (simp add: h1 path_is_dir_def)
  from after_collision_rebuilds [OF t free parent template, of env "arg_domain a" "arg_locale a"
      "email_or_default (arg_email a) (arg_domain a)"]
  have restored: "remove_at ?t ?T1 = ?X" and inst1: "path_is_dir ?T1 ?t"
    by (simp_all add: h1)
  have "lookup ?T1 [TEMPLATE_DIR] = lookup (remove_at ?t ?T1) [TEMPLATE_DIR]"
    using apart by (rule lookup_remove_at_apart [symmetric])
  with restored tmplX True have template1: "path_is_dir ?T1 [TEMPLATE_DIR]"
    by (simp add: path_is_dir_def)
  from forced_run_on_instance [OF again(6) again(4) again(5) sub2 inst1 template1, of env ev2]
  obtain h2 where h2: "tree h2 = remove_at ?t ?T1"
    and m2: "main a2 env ev2 (start_world ?T1) = ?ac h2"
    by (auto simp: again)
  from h1 h2 restored have same: "tree h2 = tree h1" by simp
  have "tree_determined ?ac" by (rule tree_determined_after_collision)
  from tree_determinedD [OF this same]
  have "fst (?ac h2) = fst (?ac h1)" and "tree (snd (?ac h2)) = ?T1" by simp_all
  with m1 m2 show ?thesis
    by (simp add: deploy_from_main)
qed

subsection \<open>Deploying again with force\<close>

text \<open>
  C8.  The command line is one the parser accepts, without \<open>--dry-run\<close>; the instance
  directory is a place below the directory of the script that is neither the template, nor
  inside it, nor around it.  A second command line has the same domain, locale and address,
  and \<open>--force\<close>.  The process is the same in both runs; the answers on the terminal may
  differ.

  \<^item> A run succeeds: the superuser, on a well-formed tree with a template directory in
    which each of the three configured files is missing or valid UTF-8, ends with status 0
    when the instance directory is free (and the directory it is made in exists), or is a
    directory and the run is forced.
  \<^item> Whenever a run ends with status 0, what it leaves in the instance directory is
    determined by the template and the three inputs alone: at every path below it there is
    what the template has at that path, a directory for a directory, and for a file its
    bytes, copied or, in the three configured files, read as UTF-8 text with universal
    newlines and written back with each token replaced.  Nothing of an instance that was
    there before remains.  A forced run on the tree this run left ends with status 0 as
    well, and leaves that very tree: every file has the bytes (and the owner) the first
    run gave it.
  \<^item> When the first run is forced and the instance directory exists, the second run ends
    as the first did and leaves the tree the first left, even if both fail.
\<close>

theorem forced_redeploy_idempotent:
  assumes lv: "arg_log_level a \<in> set LOG_LEVEL_CHOICES"
    and nodry: "\<not> arg_dry_run a"
    and sub: "extract_subdomain (arg_domain a) = Inr sub"
    and apart: "\<not> prefix (path_parts sub) [TEMPLATE_DIR]" "\<not> prefix [TEMPLATE_DIR] (path_parts sub)"
    and rel: "relative_id sub"
    and again: "arg_domain a2 = arg_domain a" "arg_locale a2 = arg_locale a"
      "arg_email a2 = arg_email a" "arg_force a2" "\<not> arg_dry_run a2"
      "arg_log_level a2 \<in> set LOG_LEVEL_CHOICES"
  shows
    "(euid env = 0 \<and> wf_node root \<and> path_is_dir root [TEMPLATE_DIR] \<and> template_ready root
        \<and> place_ready root (path_parts sub) (arg_force a)
      \<longrightarrow> fst (deploy a env ev1 root) = EXIT_SUCCESS)
     \<and> (fst (deploy a env ev1 root) = EXIT_SUCCESS \<longrightarrow>
          (\<forall>r. entry_at (tree (snd (deploy a env ev1 root))) (path_parts sub @ r)
                = Option.bind (entry_at root (TEMPLATE_DIR # r))
                    (configured_entry (arg_domain a) (arg_locale a)
                       (email_or_default (arg_email a) (arg_domain a)) sub r))
          \<and> fst (deploy a2 env ev2 (tree (snd (deploy a env ev1 root)))) = EXIT_SUCCESS
          \<and> tree (snd (deploy a2 env ev2 (tree (snd (deploy a env ev1 root)))))
              = tree (snd (deploy a env ev1 root)))
     \<and> (arg_force a \<and> path_is_dir root (path_parts sub) \<longrightarrow>
          fst (deploy a2 env ev2 (tree (snd (deploy a env ev1 root))))
            = fst (deploy a env ev1 root)
          \<and> tree (snd (deploy a2 env ev2 (tree (snd (deploy a env ev1 root)))))
              = tree (snd (deploy a env ev1 root)))"
proof -
  let ?t = "path_parts sub"
  let ?me = "(euid env, egid env)"
  let ?co = "configure_and_own env (arg_domain a) (arg_locale a)
          (email_or_default (arg_email a) (arg_domain a)) sub"
  from apart(1) have t: "?t \<noteq> []" by auto
  from again(1) sub have sub2: "extract_subdomain (arg_domain a2) = Inr sub" by simp
  have one: "fst (deploy a env ev1 root) = EXIT_SUCCESS"
    if h: "euid env = 0 \<and> wf_node root \<and> path_is_dir root [TEMPLATE_DIR]
      \<and> template_ready root \<and> place_ready root ?t (arg_force a)"
  proof -
    from h have root: "euid env = 0" and wf: "wf_node root"
      and ready: "template_ready root" and place: "place_ready root ?t (arg_force a)"
      by simp_all
    from h obtain ow es where tmpl: "lookup root [TEMPLATE_DIR] = Some (Dir ow es)"
      by (auto simp: path_is_dir_def split: option.splits node.splits)
    let ?X = "remove_at ?t root"
    let ?N = "fresh_copy ?me (Dir ow es)"
    have free: "lookup ?X ?t = None" using t by (rule lookup_remove_at_same)
    have parent: "path_is_dir ?X (butlast ?t)"
    proof (cases "path_exists root ?t")
      case True
      with place have "path_is_dir root ?t" by (simp add: place_ready_def)
      then show ?thesis using t by (rule parent_dir_after_remove)
    next
      case False
      then have "lookup root ?t = None" by (simp add: path_exists_def)
      then have "?X = root" by (rule remove_at_absent)
      with False place show ?thesis by (simp add: place_ready_def)
    qed
    from place have place': "(path_is_dir root ?t \<and> arg_force a) \<or> lookup root ?t = None"
      by (auto simp: place_ready_def path_exists_def split: if_splits)
    from put_new_then_remove [OF t parent free, of ?me ?N]
    obtain Y where put: "put_new ?me ?t ?N ?X = Some Y" by blast
    from run_reaches_configure [OF lv nodry sub apart tmpl place' put, of ev1]
    obtain v where v: "tree v = Y" and run: "main a env ev1 (start_world root) = ?co v"
      by blast
    from wf tmpl have "wf_node (Dir ow es)" by (rule wf_node_lookup)
    then have "wf_node ?N" by (rule wf_node_fresh_copy)
    with put wf have wfY: "wf_node (tree v)"
      by (simp add: v wf_node_put_new wf_node_remove_at)
    have "readable_or_missing (tree v) (?t @ r)" if "r \<in> set CONFIGURED_FILES" for r
    proof -
      from ready that have "readable_or_missing root (TEMPLATE_DIR # r)"
        by (simp add: template_ready_def list_all_iff)
      moreover from template_entries_copied [OF tmpl put free, of r]
      have "entry_at (tree v) (?t @ r) = entry_at root (TEMPLATE_DIR # r)" by (simp add: v)
      ultimately show ?thesis by (simp add: readable_or_missing_def)
    qed
    then have "\<forall>r \<in> set CONFIGURED_FILES. readable_or_missing (tree v) (?t @ r)" by blast
    from configure_and_own_succeeds [OF root wfY this]
    have "fst (?co v) = Return EXIT_SUCCESS" .
    with run show ?thesis
      by (simp add: deploy_from_main)
  qed
  have two: "(\<forall>r. entry_at (tree (snd (deploy a env ev1 root))) (?t @ r)
        = Option.bind (entry_at root (TEMPLATE_DIR # r))
            (configured_entry (arg_domain a) (arg_locale a)
               (email_or_default (arg_email a) (arg_domain a)) sub r))
      \<and> fst (deploy a2 env ev2 (tree (snd (deploy a env ev1 root)))) = EXIT_SUCCESS
      \<and> tree (snd (deploy a2 env ev2 (tree (snd (deploy a env ev1 root)))))
          = tree (snd (deploy a env ev1 root))"
    if ok: "fst (deploy a env ev1 root) = EXIT_SUCCESS"
  proof -
    from successful_run [OF lv nodry sub apart ok]
    obtain ow es v where tmpl: "lookup root [TEMPLATE_DIR] = Some (Dir ow es)"
      and put: "put_new ?me ?t (fresh_copy ?me (Dir ow es)) (remove_at ?t root) = Some (tree v)"
      and run: "main a env ev1 (start_world root) = ?co v"
      and fin: "fst (?co v) = Return EXIT_SUCCESS"
      by blast
    let ?T1 = "tree (snd (?co v))"
    have T1: "tree (snd (deploy a env ev1 root)) = ?T1"
      by (simp add: deploy_from_main run)
    have free: "lookup (remove_at ?t root) ?t = None" using t by (rule lookup_remove_at_same)
    have entries: "entry_at ?T1 (?t @ r)
        = Option.bind (entry_at root (TEMPLATE_DIR # r))
            (configured_entry (arg_domain a) (arg_locale a)
               (email_or_default (arg_email a) (arg_domain a)) sub r)" for r
      using configure_and_own_returned [OF fin, of r]
        template_entries_copied [OF tmpl put free, of r]
      by simp
    then have first: "\<forall>r. entry_at (tree (snd (deploy a env ev1 root))) (?t @ r)
        = Option.bind (entry_at root (TEMPLATE_DIR # r))
            (configured_entry (arg_domain a) (arg_locale a)
               (email_or_default (arg_email a) (arg_domain a)) sub r)"
      by (simp only: T1) blast
    have conf: "confined ?t ?co" using t by (rule confined_configure_and_own)
    from confinedD [OF conf, of v]
    have removed: "remove_at ?t ?T1 = remove_at ?t (tree v)"
      and kind: "path_is_dir ?T1 ?t = path_is_dir (tree v) ?t"
      by simp_all
    from put_new_placed [OF put free] have "path_is_dir (tree v) ?t"
      by (simp add: path_is_dir_def)
    with kind have inst1: "path_is_dir ?T1 ?t" by simp
    have "lookup ?T1 [TEMPLATE_DIR] = lookup (remove_at ?t ?T1) [TEMPLATE_DIR]"
      using apart by (rule lookup_remove_at_apart [symmetric])
    also have "\<dots> = lookup (tree v) [TEMPLATE_DIR]"
      unfolding removed using apart by (rule lookup_remove_at_apart)
    also have "\<dots> = lookup (remove_at ?t root) [TEMPLATE_DIR]"
      using put apart by (rule lookup_put_new_apart)
    also have "\<dots> = lookup root [TEMPLATE_DIR]"
      using apart by (rule lookup_remove_at_apart)
    finally have tmpl1: "lookup ?T1 [TEMPLATE_DIR] = Some (Dir ow es)"
      using tmpl by simp
    from put_new_again [OF put free] removed
    have put1: "put_new ?me ?t (fresh_copy ?me (Dir ow es)) (remove_at ?t ?T1) = Some (tree v)"
      by simp
    from inst1 again(4)
    have place1: "(path_is_dir ?T1 ?t \<and> arg_force a2) \<or> lookup ?T1 ?t = None" by simp
    from run_reaches_configure [OF again(6) again(5) sub2 apart tmpl1 place1 put1, of ev2]
    obtain v2 where v2: "tree v2 = tree v"
      and run2: "main a2 env ev2 (start_world ?T1) = ?co v2"
      by (auto simp: again)
    have "tree_determined ?co" by (rule tree_determined_configure_and_own)
    from tree_determinedD [OF this v2]
    have "fst (?co v2) = fst (?co v)" and "tree (snd (?co v2)) = ?T1" by simp_all
    with fin run2
    have "fst (deploy a2 env ev2 ?T1) = EXIT_SUCCESS"
      and "tree (snd (deploy a2 env ev2 ?T1)) = ?T1"
      by (simp_all add: deploy_from_main)
    with first show ?thesis unfolding T1 by blast
  qed
  have three: "fst (deploy a2 env ev2 (tree (snd (deploy a env ev1 root))))
        = fst (deploy a env ev1 root)
      \<and> tree (snd (deploy a2 env ev2 (tree (snd (deploy a env ev1 root)))))
        = tree (snd (deploy a env ev1 root))"
    if h: "arg_force a \<and> path_is_dir root ?t"
  proof -
    from h have frc: "arg_force a" and inst: "path_is_dir root ?t" by simp_all
    from forced_run_twice [OF lv frc nodry sub inst apart again, of env ev2 ev1]
    show ?thesis .
  qed
  from one two three show ?thesis by blast
qed

subsection \<open>The forced run on an example\<close>

lemma journal_site_env:
  "Option.bind (entry_at journal_site (TEMPLATE_DIR # [''.env'']))
     (configured_entry ''demo.example.com'' ''en'' ''admin@demo.example.com'' ''demo'' [''.env''])
   = Some (Regular ''HOST=demo.example.com MAIL=admin@demo.example.com DB=db-demo'')"
  by code_simp

lemma journal_site_compose:
  "Option.bind (entry_at journal_site (TEMPLATE_DIR # [''compose.yml'']))
     (configured_entry ''demo.example.com'' ''en'' ''admin@demo.example.com'' ''demo''
        [''compose.yml''])
   = Some (Regular ''journal-demo: db-demo:'')"
  by code_simp

lemma journal_site_config_inc:
  "Option.bind
     (entry_at journal_site (TEMPLATE_DIR # [''volumes'', ''config'', ''config.inc.php'']))
     (configured_entry ''demo.example.com'' ''en'' ''admin@demo.example.com'' ''demo''
        [''volumes'', ''config'', ''config.inc.php''])
   = Some (Regular (''base_url=demo.example.com'' @ [CHR 0x0A] @ ''locale=en host=db-demo''))"
  by code_simp

lemma journal_site_readme:
  "Option.bind (entry_at journal_site (TEMPLATE_DIR # [''README'']))
     (configured_entry ''demo.example.com'' ''en'' ''admin@demo.example.com'' ''demo'' [''README''])
   = Some (Regular (''see {{DOMAIN}}'' @ [CHR 0x0D, CHR 0x0A]))"
  by code_simp

lemma journal_site_notes:
  "Option.bind (entry_at journal_site (TEMPLATE_DIR # [''notes.txt'']))
     (configured_entry ''demo.example.com'' ''en'' ''admin@demo.example.com'' ''demo''
        [''notes.txt''])
   = None"
  by code_simp

lemma journal_site_db:
  "Option.bind (entry_at journal_site (TEMPLATE_DIR # [''volumes'', ''db'']))
     (configured_entry ''demo.example.com'' ''en'' ''admin@demo.example.com'' ''demo''
        [''volumes'', ''db''])
   = Some Directory"
  by code_simp

lemma journal_site_ready:
  "wf_node journal_site" "path_is_dir journal_site [TEMPLATE_DIR]" "template_ready journal_site"
  "place_ready journal_site [''demo''] True"
  by code_simp+

theorem forced_redeploy_idempotent_witness:
  "arg_log_level (demo_args\<lparr>arg_force := True\<rparr>) \<in> set LOG_LEVEL_CHOICES
   \<and> arg_force (demo_args\<lparr>arg_force := True\<rparr>)
   \<and> \<not> arg_dry_run (demo_args\<lparr>arg_force := True\<rparr>)
   \<and> extract_subdomain (arg_domain (demo_args\<lparr>arg_force := True\<rparr>)) = Inr ''demo''
   \<and> path_parts ''demo'' = [''demo'']
   \<and> relative_id ''demo''
   \<and> euid superuser = 0
   \<and> wf_node journal_site
   \<and> path_is_dir journal_site [TEMPLATE_DIR]
   \<and> template_ready journal_site
   \<and> place_ready journal_site [''demo''] True
   \<and> path_is_dir journal_site [''demo'']
   \<and> entry_at journal_site [''demo'', ''.env''] = Some (Regular ''HOST=edited.by.hand'')
   \<and> entry_at journal_site [''demo'', ''notes.txt''] = Some (Regular ''written by hand'')
   \<and> fst (deploy (demo_args\<lparr>arg_force := True\<rparr>) superuser EndOfInput journal_site) = 0
   \<and> entry_at (tree (snd (deploy (demo_args\<lparr>arg_force := True\<rparr>) superuser EndOfInput
                            journal_site))) [''demo'', ''.env'']
       = Some (Regular ''HOST=demo.example.com MAIL=admin@demo.example.com DB=db-demo'')
   \<and> entry_at (tree (snd (deploy (demo_args\<lparr>arg_force := True\<rparr>) superuser EndOfInput
                            journal_site))) [''demo'', ''compose.yml'']
       = Some (Regular ''journal-demo: db-demo:'')
   \<and> entry_at (tree (snd (deploy (demo_args\<lparr>arg_force := True\<rparr>) superuser EndOfInput
                            journal_site))) [''demo'', ''volumes'', ''config'', ''config.inc.php'']
       = Some (Regular (''base_url=demo.example.com'' @ [CHR 0x0A] @ ''locale=en host=db-demo''))
   \<and> entry_at (tree (snd (deploy (demo_args\<lparr>arg_force := True\<rparr>) superuser EndOfInput
                            journal_site))) [''demo'', ''README'']
       = Some (Regular (''see {{DOMAIN}}'' @ [CHR 0x0D, CHR 0x0A]))
   \<and> entry_at (tree (snd (deploy (demo_args\<lparr>arg_force := True\<rparr>) superuser EndOfInput
                            journal_site))) [''demo'', ''notes.txt'']
       = None
   \<and> entry_at (tree (snd (deploy (demo_args\<lparr>arg_force := True\<rparr>) superuser EndOfInput
                            journal_site))) [''demo'', ''volumes'', ''db'']
       = Some Directory
   \<and> fst (deploy (demo_args\<lparr>arg_force := True\<rparr>) superuser (Line ''n'')
         (tree (snd (deploy (demo_args\<lparr>arg_force := True\<rparr>) superuser EndOfInput journal_site))))
       = 0
   \<and> tree (snd (deploy (demo_args\<lparr>arg_force := True\<rparr>) superuser (Line ''n'')
         (tree (snd (deploy (demo_args\<lparr>arg_force := True\<rparr>) superuser EndOfInput journal_site)))))
       = tree (snd (deploy (demo_args\<lparr>arg_force := True\<rparr>) superuser EndOfInput journal_site))
   \<and> arg_force demo_args = False
   \<and> wf_node bare_site
   \<and> path_is_dir bare_site [TEMPLATE_DIR]
   \<and> template_ready bare_site
   \<and> place_ready bare_site [''demo''] False
   \<and> path_exists bare_site [''demo''] = False
   \<and> fst (deploy demo_args superuser EndOfInput bare_site) = 0
   \<and> entry_at (tree (snd (deploy demo_args superuser EndOfInput bare_site))) [''demo'']
       = Some Directory
   \<and> fst (deploy (demo_args\<lparr>arg_force := True\<rparr>) superuser EndOfInput
         (tree (snd (deploy demo_args superuser EndOfInput bare_site))))
       = 0
   \<and> tree (snd (deploy (demo_args\<lparr>arg_force := True\<rparr>) superuser EndOfInput
         (tree (snd (deploy demo_args superuser EndOfInput bare_site)))))
       = tree (snd (deploy demo_args superuser EndOfInput bare_site))"
proof -
  let ?a = "demo_args\<lparr>arg_force := True\<rparr>"
  let ?T1 = "tree (snd (deploy ?a superuser EndOfInput journal_site))"
  have lv: "arg_log_level ?a \<in> set LOG_LEVEL_CHOICES"
    by (simp add: demo_args_def LOG_LEVEL_CHOICES_def)
  have frc: "arg_force ?a" and nodry: "\<not> arg_dry_run ?a"
    by (simp_all add: demo_args_def)
  have sub: "extract_subdomain (arg_domain ?a) = Inr ''demo''"
    by (simp add: demo_args_def extract_subdomain_demo)
  have apart: "\<not> prefix (path_parts ''demo'') [TEMPLATE_DIR]"
    "\<not> prefix [TEMPLATE_DIR] (path_parts ''demo'')"
    by (simp_all add: path_parts_demo TEMPLATE_DIR_def)
  have rel: "relative_id ''demo''"
    by (simp add: relative_id_def)
  have fields: "arg_domain ?a = ''demo.example.com''" "arg_locale ?a = ''en''"
    "email_or_default (arg_email ?a) ''demo.example.com'' = ''admin@demo.example.com''"
    by (simp_all add: demo_args_def email_or_default_def)
  have super: "euid superuser = 0" by (simp add: superuser_def)
  have inst: "path_is_dir journal_site [''demo'']"
    by (simp add: path_is_dir_def journal_site_def)
  have before: "entry_at journal_site [''demo'', ''.env''] = Some (Regular ''HOST=edited.by.hand'')"
    "entry_at journal_site [''demo'', ''notes.txt''] = Some (Regular ''written by hand'')"
    by (simp_all add: entry_at_def journal_site_def)
  note run = forced_redeploy_idempotent [OF lv nodry sub apart rel refl refl refl frc nodry lv,
      of superuser journal_site EndOfInput "Line ''n''"]
  from run super journal_site_ready frc
  have ok: "fst (deploy ?a superuser EndOfInput journal_site) = EXIT_SUCCESS"
    by (simp add: path_parts_demo)
  with run have entries: "entry_at ?T1 (path_parts ''demo'' @ r)
      = Option.bind (entry_at journal_site (TEMPLATE_DIR # r))
          (configured_entry (arg_domain ?a) (arg_locale ?a)
             (email_or_default (arg_email ?a) (arg_domain ?a)) ''demo'' r)" for r
    by blast
  from run ok have again:
    "fst (deploy ?a superuser (Line ''n'') ?T1) = EXIT_SUCCESS"
    "tree (snd (deploy ?a superuser (Line ''n'') ?T1)) = ?T1"
    by blast+
  have e1: "entry_at ?T1 ([''demo''] @ [''.env''])
      = Some (Regular ''HOST=demo.example.com MAIL=admin@demo.example.com DB=db-demo'')"
    using entries [of "[''.env'']"] unfolding fields path_parts_demo journal_site_env .
  have e2: "entry_at ?T1 ([''demo''] @ [''compose.yml'']) = Some (Regular ''journal-demo: db-demo:'')"
    using entries [of "[''compose.yml'']"] unfolding fields path_parts_demo journal_site_compose .
  have e3: "entry_at ?T1 ([''demo''] @ [''volumes'', ''config'', ''config.inc.php''])
      = Some (Regular (''base_url=demo.example.com'' @ [CHR 0x0A] @ ''locale=en host=db-demo''))"
    using entries [of "[''volumes'', ''config'', ''config.inc.php'']"]
    unfolding fields path_parts_demo journal_site_config_inc .
  have e4: "entry_at ?T1 ([''demo''] @ [''README''])
      = Some (Regular (''see {{DOMAIN}}'' @ [CHR 0x0D, CHR 0x0A]))"
    using entries [of "[''README'']"] unfolding fields path_parts_demo journal_site_readme .
  have e5: "entry_at ?T1 ([''demo''] @ [''notes.txt'']) = None"
    using entries [of "[''notes.txt'']"] unfolding fields path_parts_demo journal_site_notes .
  have e6: "entry_at ?T1 ([''demo''] @ [''volumes'', ''db'']) = Some Directory"
    using entries [of "[''volumes'', ''db'']"] unfolding fields path_parts_demo journal_site_db .
  let ?U1 = "tree (snd (deploy demo_args superuser EndOfInput bare_site))"
  have lv0: "arg_log_level demo_args \<in> set LOG_LEVEL_CHOICES"
    by (simp add: demo_args_def LOG_LEVEL_CHOICES_def)
  have nofrc0: "arg_force demo_args = False" and nodry0: "\<not> arg_dry_run demo_args"
    by (simp_all add: demo_args_def)
  have sub0: "extract_subdomain (arg_domain demo_args) = Inr ''demo''"
    by (simp add: demo_args_def extract_subdomain_demo)
  have same: "arg_domain ?a = arg_domain demo_args" "arg_locale ?a = arg_locale demo_args"
    "arg_email ?a = arg_email demo_args"
    by simp_all
  have bare: "wf_node bare_site" "path_is_dir bare_site [TEMPLATE_DIR]"
    "template_ready bare_site" "place_ready bare_site [''demo''] False"
    "path_exists bare_site [''demo''] = False"
    "Option.bind (entry_at bare_site (TEMPLATE_DIR # []))
       (configured_entry (arg_domain demo_args) (arg_locale demo_args)
          (email_or_default (arg_email demo_args) (arg_domain demo_args)) ''demo'' [])
     = Some Directory"
    by (simp_all add: bare_site_def TEMPLATE_DIR_def path_is_dir_def path_exists_def
        template_ready_def readable_or_missing_def entry_at_def CONFIGURED_FILES_def
        place_ready_def configured_entry_def)
  note run0 = forced_redeploy_idempotent [OF lv0 nodry0 sub0 apart rel same frc nodry lv,
      of superuser bare_site EndOfInput EndOfInput]
  from run0 super bare nofrc0
  have ok0: "fst (deploy demo_args superuser EndOfInput bare_site) = EXIT_SUCCESS"
    by (simp add: path_parts_demo)
  with run0 have entries0: "entry_at ?U1 (path_parts ''demo'' @ r)
      = Option.bind (entry_at bare_site (TEMPLATE_DIR # r))
          (configured_entry (arg_domain demo_args) (arg_locale demo_args)
             (email_or_default (arg_email demo_args) (arg_domain demo_args)) ''demo'' r)" for r
    by blast
  from run0 ok0 have again0:
    "fst (deploy ?a superuser EndOfInput ?U1) = EXIT_SUCCESS"
    "tree (snd (deploy ?a superuser EndOfInput ?U1)) = ?U1"
    by blast+
  have e0: "entry_at ?U1 ([''demo''] @ []) = Some Directory"
    using entries0 [of "[]"] unfolding path_parts_demo bare(6) .
  have first: "arg_log_level ?a \<in> set LOG_LEVEL_CHOICES \<and> arg_force ?a
      \<and> \<not> arg_dry_run ?a \<and> extract_subdomain (arg_domain ?a) = Inr ''demo''
      \<and> relative_id ''demo'' \<and> euid superuser = 0"
    using lv frc nodry sub rel super by blast
  show ?thesis
    using first journal_site_ready inst before ok again e1 e2 e3 e4 e5 e6
      nofrc0 bare(1-5) ok0 e0 again0
    by (simp add: path_parts_demo EXIT_SUCCESS_def)
qed

end
